theory Spec2Isabelle
  imports Main
begin

section \<open>The instance event bus (events.js)\<close>

text \<open>
  Values passed to handlers and returned by them. Only the distinction between
  \<open>null\<close>, \<open>undefined\<close> and everything else matters to the code modelled here.
\<close>

datatype val = VUndef | VNull | VInt int | VStr string

text \<open>
  A callback is a JavaScript function object, compared by identity (\<open>===\<close>).
  \<^item> \<open>Fn f\<close> is the user function with identity \<open>f\<close>;
  \<^item> \<open>OnceCb w ev fn\<close> is the closure \<open>on\<close> that \<open>$once(ev, fn)\<close> creates; it carries
    the property \<open>on.fn = fn\<close>. \<open>w\<close> is the identity of the closure: every call of
    \<open>$once\<close> creates a new one;
  \<^item> \<open>OnceHandler w ev fn\<close> is the closure \<open>onceHandler\<close> that
    \<open>createOnceHandler(ev, fn)\<close> returns; it has no \<open>fn\<close> property.
\<close>

datatype cb = Fn nat | OnceCb nat string cb | OnceHandler nat string cb

text \<open>The \<open>fn\<close> property of a callback (\<open>cb.fn\<close>), \<open>None\<close> when it is undefined.\<close>

fun fn_prop :: "cb \<Rightarrow> cb option" where
  "fn_prop (OnceCb w ev f) = Some f"
| "fn_prop _ = None"

text \<open>The test \<open>cb === fn || cb.fn === fn\<close> of \<open>$off\<close>.\<close>

definition cb_matches :: "cb \<Rightarrow> cb \<Rightarrow> bool" where
  "cb_matches c fn \<longleftrightarrow> c = fn \<or> fn_prop c = Some fn"

text \<open>
  The state of one instance's bus. \<open>vm._events\<close> maps an event name to an array
  object; arrays are mutated in place (\<open>push\<close>, \<open>splice\<close>) and one of them may be
  held by a running \<open>$emit\<close>, so they live in a store of their own, addressed by
  number. \<open>events s ev = None\<close> stands for a missing or \<open>null\<close> entry.
  \<open>calls\<close>, \<open>trace\<close> and \<open>reported\<close> observe the run: how often each user function
  was entered, which callbacks \<open>$emit\<close> invoked (with the nesting depth of the
  emission and the arguments), and which errors were handed to the error sink.
\<close>

record bus =
  events :: "string \<Rightarrow> nat option"
  arrays :: "nat \<Rightarrow> cb list"
  nextArr :: nat
  hasHookEvent :: bool
  nextFn :: nat
  calls :: "nat \<Rightarrow> nat"
  trace :: "(nat \<times> cb \<times> val list) list"
  reported :: "string list"

text \<open>\<open>initEvents\<close> without parent listeners: an empty map, flag cleared.\<close>

definition initEvents :: bus where
  "initEvents = \<lparr> events = (\<lambda>_. None), arrays = (\<lambda>_. []), nextArr = 0,
     hasHookEvent = False, nextFn = 0, calls = (\<lambda>_. 0), trace = [], reported = [] \<rparr>"

text \<open>The callbacks currently registered for an event.\<close>

definition registered :: "bus \<Rightarrow> string \<Rightarrow> cb list" where
  "registered s ev = (case events s ev of None \<Rightarrow> [] | Some a \<Rightarrow> arrays s a)"

text \<open>\<open>hookRE = /^hook:/\<close>.\<close>

definition hookRE :: "string \<Rightarrow> bool" where
  "hookRE ev \<longleftrightarrow> take 5 ev = ''hook:''"

text \<open>
  \<open>$on(event, fn)\<close> for a single name:
  \<open>(vm._events[event] || (vm._events[event] = [])).push(fn)\<close>, then the flag.
\<close>

definition on :: "string \<Rightarrow> cb \<Rightarrow> bus \<Rightarrow> bus" where
  "on ev fn s =
     (let s1 = (case events s ev of
                  Some a \<Rightarrow> s
                | None \<Rightarrow> s\<lparr> events := (events s)(ev \<mapsto> nextArr s),
                             arrays := (arrays s)(nextArr s := []),
                             nextArr := Suc (nextArr s) \<rparr>);
          a = the (events s1 ev);
          s2 = s1\<lparr> arrays := (arrays s1)(a := arrays s1 a @ [fn]) \<rparr>
      in if hookRE ev then s2\<lparr> hasHookEvent := True \<rparr> else s2)"

text \<open>\<open>$on\<close> with an array of names: one \<open>$on\<close> per name, in order.\<close>

fun on_many :: "string list \<Rightarrow> cb \<Rightarrow> bus \<Rightarrow> bus" where
  "on_many [] fn s = s"
| "on_many (ev # evs) fn s = on_many evs fn (on ev fn s)"

text \<open>\<open>$once(event, fn)\<close>: a new closure \<open>on\<close> with \<open>on.fn = fn\<close> is subscribed.\<close>

definition once :: "string \<Rightarrow> cb \<Rightarrow> bus \<Rightarrow> bus" where
  "once ev fn s = on ev (OnceCb (nextFn s) ev fn) (s\<lparr> nextFn := Suc (nextFn s) \<rparr>)"

text \<open>
  The loop of \<open>$off(event, fn)\<close>:
  \<^verbatim>\<open>let i = cbs.length; while (i--) { cb = cbs[i]; if (cb === fn || cb.fn === fn) { cbs.splice(i, 1); break } }\<close>
  \<open>off_loop i fn cbs\<close> is the loop entered with counter \<open>i\<close>; \<open>i\<close> never exceeds the
  length, so \<open>cbs ! (i - 1)\<close> is always in range.
\<close>

fun off_loop :: "nat \<Rightarrow> cb \<Rightarrow> cb list \<Rightarrow> cb list" where
  "off_loop 0 fn cbs = cbs"
| "off_loop (Suc i) fn cbs =
     (if cb_matches (cbs ! i) fn then take i cbs @ drop (Suc i) cbs
      else off_loop i fn cbs)"

text \<open>\<open>$off()\<close>: \<open>vm._events = Object.create(null)\<close>.\<close>

definition off_all :: "bus \<Rightarrow> bus" where
  "off_all s = s\<lparr> events := (\<lambda>_. None) \<rparr>"

text \<open>
  \<open>$off(event, fn)\<close> for a single name; \<open>fn = None\<close> is the call without a
  (truthy) second argument, which sets the entry to \<open>null\<close>.
\<close>

definition off_one :: "string \<Rightarrow> cb option \<Rightarrow> bus \<Rightarrow> bus" where
  "off_one ev fn s =
     (case events s ev of
        None \<Rightarrow> s
      | Some a \<Rightarrow>
          (case fn of
             None \<Rightarrow> s\<lparr> events := (events s)(ev := None) \<rparr>
           | Some f \<Rightarrow> s\<lparr> arrays := (arrays s)(a := off_loop (length (arrays s a)) f (arrays s a)) \<rparr>))"

text \<open>\<open>$off\<close> with an array of names.\<close>

fun off_many :: "string list \<Rightarrow> cb option \<Rightarrow> bus \<Rightarrow> bus" where
  "off_many [] fn s = s"
| "off_many (ev # evs) fn s = off_many evs fn (off_one ev fn s)"

section \<open>Handlers that use the bus\<close>

text \<open>
  User functions are JavaScript code; the ones modelled here are scripts of bus
  operations on their own instance, possibly ending in a throw. A function may
  behave differently from one call to the next (it is a closure with state of its
  own): its script and its return value depend on how often it was entered before.
\<close>

datatype stmt =
    SOn string nat
  | SOnce string nat
  | SOffAll
  | SOffEvent string
  | SOffFn string nat
  | SEmit string "val list"
  | SThrow

text \<open>\<open>p f k\<close>: the script and the return value of function \<open>f\<close> on its call number \<open>k\<close>.\<close>

type_synonym prog = "nat \<Rightarrow> nat \<Rightarrow> stmt list \<times> val"

text \<open>A call either returns a value or throws; the state changes made so far stay.\<close>

datatype ('a, 's) outcome = Done 'a 's | Thrown 's

text \<open>
  The interpreter. Handlers may emit events whose handlers emit events, so a run
  need not end; the first argument bounds the number of nested steps, and \<open>None\<close>
  is a run that did not end within the bound. The third argument is the nesting
  depth of the emission, recorded in the trace.
  \<^item> \<open>exec\<close> runs a script;
  \<^item> \<open>apply_cb\<close> is \<open>fn.apply(...)\<close>: a user function runs its script; the closure of
    \<open>$once\<close> first calls \<open>vm.$off(event, on)\<close> and then \<open>fn\<close>; the closure of
    \<open>createOnceHandler\<close> first calls \<open>fn\<close> and then, when the result is not \<open>null\<close>,
    \<open>_target.$off(event, onceHandler)\<close>;
  \<^item> \<open>emit\<close> is \<open>$emit\<close>: \<open>cbs = cbs.length > 1 ? toArray(cbs) : cbs\<close>, then
    \<open>for (let i = 0, l = cbs.length; i < l; i++) invokeWithErrorHandling(cbs[i], ...)\<close>.
    \<open>emit_copy\<close> is the loop over the private copy, \<open>emit_live\<close> the loop over the
    array object at address \<open>a\<close> itself, which reads \<open>cbs[i]\<close> from the store at
    every round with the bound \<open>l\<close> fixed at the start.
  The development-only \<open>tip\<close> of \<open>$emit\<close> about lower-case event names changes no
  state and is left out.
\<close>

text \<open>
  Modelled from the spec: \<open>invokeWithErrorHandling\<close>, which events.js and
  lifecycle.js import from util. "Invocation errors are caught and reported per-callback,
  not aborting remaining callbacks": the handler is called, and when it throws, the
  error is handed to the sink and the call returns normally. Calling \<open>undefined\<close>
  (an index out of range) is such an error.
\<close>

function (sequential) exec :: "nat \<Rightarrow> prog \<Rightarrow> nat \<Rightarrow> stmt list \<Rightarrow> bus \<Rightarrow> (unit, bus) outcome option"
and apply_cb :: "nat \<Rightarrow> prog \<Rightarrow> nat \<Rightarrow> cb \<Rightarrow> val list \<Rightarrow> bus \<Rightarrow> (val, bus) outcome option"
and invokeWithErrorHandling :: "nat \<Rightarrow> prog \<Rightarrow> nat \<Rightarrow> cb option \<Rightarrow> val list \<Rightarrow> string \<Rightarrow> bus \<Rightarrow> bus option"
and emit_copy :: "nat \<Rightarrow> prog \<Rightarrow> nat \<Rightarrow> cb list \<Rightarrow> val list \<Rightarrow> string \<Rightarrow> bus \<Rightarrow> bus option"
and emit_live :: "nat \<Rightarrow> prog \<Rightarrow> nat \<Rightarrow> nat \<Rightarrow> nat \<Rightarrow> nat \<Rightarrow> val list \<Rightarrow> string \<Rightarrow> bus \<Rightarrow> bus option"
and emit :: "nat \<Rightarrow> prog \<Rightarrow> nat \<Rightarrow> string \<Rightarrow> val list \<Rightarrow> bus \<Rightarrow> bus option"
where
  "exec 0 p d ss s = None"
| "exec (Suc n) p d ss s =
     (case ss of
        [] \<Rightarrow> Some (Done () s)
      | SOn ev f # rest \<Rightarrow> exec n p d rest (on ev (Fn f) s)
      | SOnce ev f # rest \<Rightarrow> exec n p d rest (once ev (Fn f) s)
      | SOffAll # rest \<Rightarrow> exec n p d rest (off_all s)
      | SOffEvent ev # rest \<Rightarrow> exec n p d rest (off_one ev None s)
      | SOffFn ev f # rest \<Rightarrow> exec n p d rest (off_one ev (Some (Fn f)) s)
      | SEmit ev args # rest \<Rightarrow>
          (case emit n p d ev args s of None \<Rightarrow> None | Some s' \<Rightarrow> exec n p d rest s')
      | SThrow # rest \<Rightarrow> Some (Thrown s))"
| "apply_cb 0 p d c args s = None"
| "apply_cb (Suc n) p d c args s =
     (case c of
        Fn f \<Rightarrow>
          (let k = calls s f; s1 = s\<lparr> calls := (calls s)(f := Suc k) \<rparr> in
           case exec n p d (fst (p f k)) s1 of
             None \<Rightarrow> None
           | Some (Thrown s2) \<Rightarrow> Some (Thrown s2)
           | Some (Done u s2) \<Rightarrow> Some (Done (snd (p f k)) s2))
      | OnceCb w ev fn \<Rightarrow>
          (case apply_cb n p d fn args (off_one ev (Some c) s) of
             None \<Rightarrow> None
           | Some (Thrown s2) \<Rightarrow> Some (Thrown s2)
           | Some (Done r s2) \<Rightarrow> Some (Done VUndef s2))
      | OnceHandler w ev fn \<Rightarrow>
          (case apply_cb n p d fn args s of
             None \<Rightarrow> None
           | Some (Thrown s2) \<Rightarrow> Some (Thrown s2)
           | Some (Done r s2) \<Rightarrow>
               Some (Done VUndef (if r \<noteq> VNull then off_one ev (Some c) s2 else s2))))"
| "invokeWithErrorHandling 0 p d c args info s = None"
| "invokeWithErrorHandling (Suc n) p d c args info s =
     (case c of
        None \<Rightarrow> Some (s\<lparr> reported := reported s @ [info] \<rparr>)
      | Some f \<Rightarrow>
          (case apply_cb n p (Suc d) f args (s\<lparr> trace := trace s @ [(d, f, args)] \<rparr>) of
             None \<Rightarrow> None
           | Some (Thrown s2) \<Rightarrow> Some (s2\<lparr> reported := reported s2 @ [info] \<rparr>)
           | Some (Done r s2) \<Rightarrow> Some s2))"
| "emit_copy 0 p d cbs args info s = None"
| "emit_copy (Suc n) p d cbs args info s =
     (case cbs of
        [] \<Rightarrow> Some s
      | c # rest \<Rightarrow>
          (case invokeWithErrorHandling n p d (Some c) args info s of
             None \<Rightarrow> None
           | Some s' \<Rightarrow> emit_copy n p d rest args info s'))"
| "emit_live 0 p d a i l args info s = None"
| "emit_live (Suc n) p d a i l args info s =
     (if i < l
      then (case invokeWithErrorHandling n p d (if i < length (arrays s a) then Some (arrays s a ! i) else None)
                   args info s of
              None \<Rightarrow> None
            | Some s' \<Rightarrow> emit_live n p d a (Suc i) l args info s')
      else Some s)"
| "emit 0 p d ev args s = None"
| "emit (Suc n) p d ev args s =
     (case events s ev of
        None \<Rightarrow> Some s
      | Some a \<Rightarrow>
          (let info = ''event handler for \"'' @ ev @ ''\"'' in
           if length (arrays s a) > 1
           then emit_copy n p d (arrays s a) args info s
           else emit_live n p d a 0 (length (arrays s a)) args info s))"
  by pat_completeness auto
termination
  by (relation "measure (\<lambda>x. case x of
        Inl (Inl (n, _)) \<Rightarrow> n
      | Inl (Inr (Inl (n, _))) \<Rightarrow> n
      | Inl (Inr (Inr (n, _))) \<Rightarrow> n
      | Inr (Inl (n, _)) \<Rightarrow> n
      | Inr (Inr (Inl (n, _))) \<Rightarrow> n
      | Inr (Inr (Inr (n, _))) \<Rightarrow> n)") auto

text \<open>
  Distinct event names never share an array object, and every array in use was
  allocated: this holds initially and is kept by every operation.
\<close>

definition wf_bus :: "bus \<Rightarrow> bool" where
  "wf_bus s \<longleftrightarrow>
     (\<forall>e e' a. events s e = Some a \<and> events s e' = Some a \<longrightarrow> e = e') \<and>
     (\<forall>e a. events s e = Some a \<longrightarrow> a < nextArr s)"

section \<open>Rendering (render.js)\<close>

text \<open>
  Tree nodes are objects: \<open>_render\<close> returns a reference and assigns the \<open>parent\<close>
  field of the object it returns, so nodes live in a store. Of a node only what
  \<open>_render\<close> touches is kept: whether it is the empty placeholder, and its \<open>parent\<close>.
\<close>

record vnode =
  isComment :: bool
  vparent :: "nat option"

text \<open>
  What a render function can hand back: a reference to a tree node, an array, or
  anything else (\<open>undefined\<close>, \<open>null\<close>, a string, ...), which is not an instance of
  \<open>VNode\<close>.
\<close>

datatype jsval = JNode nat | JArray "jsval list" | JOther

datatype call_result = Returns jsval | Throws string

record rstate =
  vnodes :: "nat \<Rightarrow> vnode"
  nextVnode :: nat
  vnode_tree :: "nat option"
  placeholder :: "nat option"
  currentRenderingInstance :: "nat option"
  handled :: "(string \<times> string) list"
  warned :: "string list"

text \<open>
  The part of \<open>vm.$options\<close> that \<open>_render\<close> reads. The user's \<open>render\<close> and
  \<open>renderError\<close> are functions of the state they are called in (and, for
  \<open>renderError\<close>, of the error); they return a value or throw.
\<close>

record roptions =
  render :: "rstate \<Rightarrow> call_result"
  renderError :: "(string \<Rightarrow> rstate \<Rightarrow> call_result) option"
  parentVnode :: "nat option"

text \<open>
  Modelled from the spec: \<open>createEmptyVNode\<close> (imported from vdom/vnode), the "empty
  placeholder node": a new node object, marked as a comment, without parent.
\<close>

definition createEmptyVNode :: "rstate \<Rightarrow> nat \<times> rstate" where
  "createEmptyVNode s =
     (nextVnode s,
      s\<lparr> vnodes := (vnodes s)(nextVnode s := \<lparr> isComment = True, vparent = None \<rparr>),
         nextVnode := Suc (nextVnode s) \<rparr>)"

text \<open>
  Modelled from the spec: \<open>handleError\<close> (imported from util) routes the error to the
  reporting sink, with the \<open>info\<close> string it is given.
\<close>

definition handleError :: "string \<Rightarrow> string \<Rightarrow> rstate \<Rightarrow> rstate" where
  "handleError e info s = s\<lparr> handled := handled s @ [(e, info)] \<rparr>"

definition multi_root_msg :: string where
  "multi_root_msg = ''Multiple root nodes returned from render function. Render function should return a single root node.''"

text \<open>\<open>vm._vnode\<close> as a value: the node, or \<open>null\<close>.\<close>

definition tree_val :: "nat option \<Rightarrow> jsval" where
  "tree_val t = (case t of None \<Rightarrow> JOther | Some r \<Rightarrow> JNode r)"

text \<open>The state in which the user's \<open>render\<close> is called: \<open>vm.$vnode\<close> and the
  rendering-instance slot are set.\<close>

definition before_render :: "roptions \<Rightarrow> nat \<Rightarrow> rstate \<Rightarrow> rstate" where
  "before_render opts vm s = s\<lparr> placeholder := parentVnode opts, currentRenderingInstance := Some vm \<rparr>"

text \<open>
  The \<open>try\<close>/\<open>catch\<close> of \<open>_render\<close>: the value of \<open>vnode\<close> after it, and the state.
  \<open>production\<close> is \<open>process.env.NODE_ENV === "production"\<close>.
\<close>

definition render_try :: "bool \<Rightarrow> roptions \<Rightarrow> nat \<Rightarrow> rstate \<Rightarrow> jsval \<times> rstate" where
  "render_try production opts vm s =
     (let s1 = before_render opts vm s in
      case render opts s1 of
        Returns v \<Rightarrow> (v, s1)
      | Throws e \<Rightarrow>
          (let s2 = handleError e ''render'' s1 in
           if \<not> production \<and> renderError opts \<noteq> None
           then (case the (renderError opts) e s2 of
                   Returns v \<Rightarrow> (v, s2)
                 | Throws e' \<Rightarrow>
                     (let s3 = handleError e' ''renderError'' s2 in (tree_val (vnode_tree s3), s3)))
           else (tree_val (vnode_tree s2), s2)))"

text \<open>\<open>if (Array.isArray(vnode) && vnode.length === 1) vnode = vnode[0]\<close>.\<close>

fun unwrap_single :: "jsval \<Rightarrow> jsval" where
  "unwrap_single (JArray [x]) = x"
| "unwrap_single v = v"

fun is_array :: "jsval \<Rightarrow> bool" where
  "is_array (JArray xs) = True"
| "is_array _ = False"

text \<open>\<open>Vue.prototype._render\<close>. The slot normalisation at its start only concerns
  \<open>vm.$scopedSlots\<close> and is left out.\<close>

definition prototype_render :: "bool \<Rightarrow> roptions \<Rightarrow> nat \<Rightarrow> rstate \<Rightarrow> nat \<times> rstate" where
  "prototype_render production opts vm s =
     (let (v, s1) = render_try production opts vm s;
          s2 = s1\<lparr> currentRenderingInstance := None \<rparr>;
          v1 = unwrap_single v;
          (r, s3) = (case v1 of
                       JNode r \<Rightarrow> (r, s2)
                     | _ \<Rightarrow> createEmptyVNode
                              (if \<not> production \<and> is_array v1
                               then s2\<lparr> warned := warned s2 @ [multi_root_msg] \<rparr> else s2))
      in (r, s3\<lparr> vnodes := (vnodes s3)(r := (vnodes s3 r)\<lparr> vparent := parentVnode opts \<rparr>) \<rparr>))"

section \<open>Provide and inject (inject.js)\<close>

text \<open>
  Of an instance \<open>resolveInject\<close> reads \<open>_provided\<close> (an object, or undefined) and
  \<open>$parent\<close>. The parent of an instance exists before the instance does, so the
  chain of parents is finite and the instance is modelled together with it.
\<close>

datatype inst = Inst (inst_uid: nat) (inst_provided: "(string \<rightharpoonup> val) option") (inst_parent: "inst option")

text \<open>A declared default: a plain value, or a function that is called with the
  requesting instance as \<open>this\<close>.\<close>

datatype dflt = DVal val | DFun "inst \<Rightarrow> val"

text \<open>One entry of the normalised \<open>inject\<close> option: \<open>{ from, default }\<close>, where
  \<open>default_opt = None\<close> means that the entry has no \<open>default\<close> property.\<close>

record injection =
  from_key :: string
  default_opt :: "dflt option"

text \<open>
  The loop \<open>while (source) { if (source._provided && hasOwn(source._provided, provideKey)) {...; break}
  source = source.$parent }\<close>: the value found, or \<open>None\<close> when the loop ends with
  \<open>source\<close> undefined.
\<close>

fun find_provided :: "inst \<Rightarrow> string \<Rightarrow> val option" where
  "find_provided (Inst u pr par) k =
     (case (case pr of None \<Rightarrow> None | Some m \<Rightarrow> m k) of
        Some v \<Rightarrow> Some v
      | None \<Rightarrow> (case par of None \<Rightarrow> None | Some src \<Rightarrow> find_provided src k))"

definition not_found_msg :: "string \<Rightarrow> string" where
  "not_found_msg key = ''Injection \"'' @ key @ ''\" not found''"

text \<open>
  One round of the loop over the keys. \<open>inject\<close> is the option object as the list of
  its own keys with their entries; \<open>inject[key]\<close> is the entry of the first such key.
  The result object and the warnings given so far are threaded through.
\<close>

definition resolve_key ::
  "bool \<Rightarrow> (string \<times> injection) list \<Rightarrow> inst \<Rightarrow> string \<Rightarrow>
   (string \<rightharpoonup> val) \<times> string list \<Rightarrow> (string \<rightharpoonup> val) \<times> string list" where
  "resolve_key production inject vm key acc =
     (if key = ''__ob__'' then acc
      else
        (let decl = the (map_of inject key);
             provideKey = from_key decl
         in case find_provided vm provideKey of
              Some v \<Rightarrow> ((fst acc)(key \<mapsto> v), snd acc)
            | None \<Rightarrow>
                (case default_opt decl of
                   Some (DFun f) \<Rightarrow> ((fst acc)(key \<mapsto> f vm), snd acc)
                 | Some (DVal v) \<Rightarrow> ((fst acc)(key \<mapsto> v), snd acc)
                 | None \<Rightarrow> if \<not> production then (fst acc, snd acc @ [not_found_msg key]) else acc)))"

text \<open>\<open>resolveInject(inject, vm)\<close>: undefined without an \<open>inject\<close> option, else the
  result object; the second component is what was passed to \<open>warn\<close>.\<close>

definition resolveInject ::
  "bool \<Rightarrow> (string \<times> injection) list option \<Rightarrow> inst \<Rightarrow> ((string \<rightharpoonup> val) \<times> string list) option" where
  "resolveInject production inject vm =
     (case inject of
        None \<Rightarrow> None
      | Some decls \<Rightarrow> Some (foldl (\<lambda>acc key. resolve_key production decls vm key acc) (Map.empty, []) (map fst decls)))"

text \<open>The instance and its ancestors, nearest first.\<close>

fun chain :: "inst \<Rightarrow> inst list" where
  "chain (Inst u pr par) = Inst u pr par # (case par of None \<Rightarrow> [] | Some src \<Rightarrow> chain src)"

text \<open>\<open>source._provided && hasOwn(source._provided, key)\<close>.\<close>

definition provides :: "inst \<Rightarrow> string \<Rightarrow> bool" where
  "provides src k \<longleftrightarrow> (case inst_provided src of None \<Rightarrow> False | Some m \<Rightarrow> m k \<noteq> None)"

definition provided_value :: "inst \<Rightarrow> string \<Rightarrow> val" where
  "provided_value src k = the (the (inst_provided src) k)"

text \<open>What one round assigns to its key, if anything: the provided value, else the default.\<close>

definition key_value :: "(string \<times> injection) list \<Rightarrow> inst \<Rightarrow> string \<Rightarrow> val option" where
  "key_value inject vm key =
     (let decl = the (map_of inject key) in
      case find_provided vm (from_key decl) of
        Some v \<Rightarrow> Some v
      | None \<Rightarrow> (case default_opt decl of
                   Some (DFun f) \<Rightarrow> Some (f vm)
                 | Some (DVal v) \<Rightarrow> Some v
                 | None \<Rightarrow> None))"

section \<open>Instances and their lifecycle (lifecycle.js)\<close>

text \<open>
  Instances refer to each other (\<open>$parent\<close>, \<open>$children\<close>) and are mutated through
  these references, so they live in a store addressed by instance number. Each
  carries its own bus. \<open>hooks\<close> is \<open>vm.$options[hook]\<close>, the list of the user's
  handlers for a lifecycle phase (empty when there is none); \<open>inactive\<close> is the
  three-valued \<open>_inactive\<close> (\<open>None\<close> for \<open>null\<close>); \<open>own_vnode\<close> is \<open>vm._vnode\<close>,
  \<open>dollar_vnode\<close> is \<open>vm.$vnode\<close>, \<open>el\<close> is \<open>vm.$el\<close>, \<open>data_ob\<close> is \<open>vm._data.__ob__\<close>.
\<close>

record component =
  bus :: bus
  hooks :: "string \<Rightarrow> nat list"
  abstract :: bool
  parent :: "nat option"
  children :: "nat list"
  inactive :: "bool option"
  directInactive :: bool
  isMounted :: bool
  isDestroyed :: bool
  isBeingDestroyed :: bool
  watcher :: "nat option"
  watchers :: "nat list"
  own_vnode :: "nat option"
  dollar_vnode :: "nat option"
  el :: "nat option"
  data_ob :: "nat option"

text \<open>
  Modelled from the spec: a tree node as the patch collaborator sees it. The patch
  step "may synchronously mount descendant instances"; \<open>comps\<close> lists the child
  instances that patching this tree mounts, each with the tree it renders, \<open>host\<close>
  is the host handle that patching produces, and \<open>faulty\<close> says that patching
  this tree throws. \<open>tparent\<close> is the \<open>parent\<close> field of the node.
\<close>

record tnode =
  comps :: "(nat \<times> nat) list"
  host :: nat
  faulty :: bool
  tparent :: "nat option"

text \<open>The first argument of a patch call: a host element (or none) on the first
  render, the previous tree afterwards.\<close>

datatype patch_old = OldEl "nat option" | OldTree "nat option"

text \<open>
  The whole state. \<open>activeInstance\<close> is the module variable of lifecycle.js;
  \<open>target\<close> and \<open>targetStack\<close> are the tracking slot of the dependency graph;
  \<open>vue_ref\<close> is the \<open>__vue__\<close> field of host elements; \<open>wactive\<close>, \<open>wdeps\<close> and \<open>subs\<close>
  are the computations (watchers) and the subscriber sets of the cells;
  \<open>vmCount\<close> is the usage counter of observed data objects. \<open>hooklog\<close> and
  \<open>patchlog\<close> observe the run: every \<open>callHook(vm, hook)\<close>, and every call of the
  patch collaborator with the instance, the active instance at that moment and
  the two trees.
\<close>

record world =
  vms :: "nat \<Rightarrow> component"
  activeInstance :: "nat option"
  target :: "nat option"
  targetStack :: "nat option list"
  trees :: "nat \<Rightarrow> tnode"
  vue_ref :: "nat \<Rightarrow> nat option"
  wactive :: "nat \<Rightarrow> bool"
  wdeps :: "nat \<Rightarrow> nat list"
  subs :: "nat \<Rightarrow> nat set"
  vmCount :: "nat \<Rightarrow> int"
  hooklog :: "(nat \<times> string) list"
  patchlog :: "(nat \<times> nat option \<times> patch_old \<times> nat option) list"

definition upd_vm :: "nat \<Rightarrow> (component \<Rightarrow> component) \<Rightarrow> world \<Rightarrow> world" where
  "upd_vm vm f w = w\<lparr> vms := (vms w)(vm := f (vms w vm)) \<rparr>"

text \<open>
  Modelled from the spec: \<open>pushTarget\<close> and \<open>popTarget\<close> (imported from
  observer/dep). "\<open>pushTarget(computation)\<close> saves and replaces this context
  (supports nesting); \<open>popTarget()\<close> restores the prior context."
\<close>

definition pushTarget :: "nat option \<Rightarrow> world \<Rightarrow> world" where
  "pushTarget t w = w\<lparr> targetStack := target w # targetStack w, target := t \<rparr>"

definition popTarget :: "world \<Rightarrow> world" where
  "popTarget w =
     (case targetStack w of
        [] \<Rightarrow> w\<lparr> target := None \<rparr>
      | t # ts \<Rightarrow> w\<lparr> target := t, targetStack := ts \<rparr>)"

text \<open>The loop \<open>for (let i = 0, j = handlers.length; i < j; i++)
  invokeWithErrorHandling(handlers[i], vm, null, vm, info)\<close> of \<open>callHook\<close>, on the bus
  of the instance.\<close>

fun invoke_handlers :: "nat \<Rightarrow> prog \<Rightarrow> nat list \<Rightarrow> string \<Rightarrow> bus \<Rightarrow> bus option" where
  "invoke_handlers n p [] info b = Some b"
| "invoke_handlers n p (f # fs) info b =
     (case invokeWithErrorHandling n p 0 (Some (Fn f)) [] info b of
        None \<Rightarrow> None
      | Some b' \<Rightarrow> invoke_handlers n p fs info b')"

text \<open>\<open>callHook(vm, hook)\<close>.\<close>

definition callHook :: "nat \<Rightarrow> prog \<Rightarrow> nat \<Rightarrow> string \<Rightarrow> world \<Rightarrow> world option" where
  "callHook n p vm hook w =
     (let w1 = pushTarget None (w\<lparr> hooklog := hooklog w @ [(vm, hook)] \<rparr>);
          info = hook @ '' hook''
      in case invoke_handlers n p (hooks (vms w1 vm) hook) info (bus (vms w1 vm)) of
           None \<Rightarrow> None
         | Some b1 \<Rightarrow>
             (case (if hasHookEvent b1 then emit n p 0 (''hook:'' @ hook) [] b1 else Some b1) of
                None \<Rightarrow> None
              | Some b2 \<Rightarrow> Some (popTarget (upd_vm vm (\<lambda>i. i\<lparr> bus := b2 \<rparr>) w1))))"

text \<open>\<open>setActiveInstance(vm)\<close>: the slot is overwritten, and the returned closure,
  which puts the previous value back, is represented by that value.\<close>

definition setActiveInstance :: "nat \<Rightarrow> world \<Rightarrow> nat option \<times> world" where
  "setActiveInstance vm w = (activeInstance w, w\<lparr> activeInstance := Some vm \<rparr>)"

definition restoreActiveInstance :: "nat option \<Rightarrow> world \<Rightarrow> world" where
  "restoreActiveInstance prev w = w\<lparr> activeInstance := prev \<rparr>"

text \<open>What follows the patch call in \<open>_update\<close>, once \<open>vm.$el\<close> has been assigned.\<close>

definition after_patch :: "nat \<Rightarrow> nat option \<Rightarrow> nat option \<Rightarrow> world \<Rightarrow> world" where
  "after_patch vm prevEl prev w =
     (let w1 = restoreActiveInstance prev w;
          w2 = (case prevEl of None \<Rightarrow> w1 | Some e \<Rightarrow> w1\<lparr> vue_ref := (vue_ref w1)(e := None) \<rparr>);
          w3 = (case el (vms w2 vm) of None \<Rightarrow> w2 | Some e \<Rightarrow> w2\<lparr> vue_ref := (vue_ref w2)(e \<mapsto> vm) \<rparr>)
      in case (dollar_vnode (vms w3 vm), parent (vms w3 vm)) of
           (Some pv, Some pa) \<Rightarrow>
             if own_vnode (vms w3 pa) = Some pv
             then upd_vm pa (\<lambda>i. i\<lparr> el := el (vms w3 vm) \<rparr>) w3 else w3
         | _ \<Rightarrow> w3)"

text \<open>
  \<open>Vue.prototype._update\<close> and the patch collaborator. Patching may mount child
  instances, whose own \<open>_update\<close> patches in turn, so the two are defined together,
  with a bound on the nesting. The flags \<open>hydrating\<close> and \<open>removeOnly\<close> are only
  handed on to the collaborator and are left out.
\<close>

text \<open>
  Modelled from the spec: the patch collaborator \<open>vm.__patch__\<close>,
  "\<open>apply(oldTree, newTree, hydrating, removeOnly) -> HostHandle\<close>; \<open>newTree = null\<close>
  signals full teardown". It throws on a faulty tree: on a faulty new tree, and
  on teardown when the tree torn down is faulty. Otherwise it mounts the child
  instances of the new tree in order, each by the \<open>_update\<close> of the child with the
  tree it renders, and returns the host handle of the new tree; a teardown returns
  no handle.
\<close>

function (sequential) patch :: "nat \<Rightarrow> nat \<Rightarrow> patch_old \<Rightarrow> nat option \<Rightarrow> world \<Rightarrow> (nat option, world) outcome option"
and mount_comps :: "nat \<Rightarrow> (nat \<times> nat) list \<Rightarrow> world \<Rightarrow> (unit, world) outcome option"
and prototype_update :: "nat \<Rightarrow> nat \<Rightarrow> nat \<Rightarrow> world \<Rightarrow> (unit, world) outcome option"
where
  "patch 0 vm old new w = None"
| "patch (Suc n) vm old new w =
     (let w1 = w\<lparr> patchlog := patchlog w @ [(vm, activeInstance w, old, new)] \<rparr> in
      case new of
        None \<Rightarrow>
          (case old of
             OldEl e \<Rightarrow> Some (Done None w1)
           | OldTree ot \<Rightarrow>
               (case ot of
                  None \<Rightarrow> Some (Done None w1)
                | Some t \<Rightarrow> if faulty (trees w1 t) then Some (Thrown w1) else Some (Done None w1)))
      | Some t \<Rightarrow>
          if faulty (trees w1 t) then Some (Thrown w1)
          else (case mount_comps n (comps (trees w1 t)) w1 of
                  None \<Rightarrow> None
                | Some (Thrown w2) \<Rightarrow> Some (Thrown w2)
                | Some (Done u w2) \<Rightarrow> Some (Done (Some (host (trees w2 t))) w2)))"
| "mount_comps 0 cs w = None"
| "mount_comps (Suc n) cs w =
     (case cs of
        [] \<Rightarrow> Some (Done () w)
      | (c, t) # rest \<Rightarrow>
          (case prototype_update n c t w of
             None \<Rightarrow> None
           | Some (Thrown w1) \<Rightarrow> Some (Thrown w1)
           | Some (Done u w1) \<Rightarrow> mount_comps n rest w1))"
| "prototype_update 0 vm vnode w = None"
| "prototype_update (Suc n) vm vnode w =
     (let prevEl = el (vms w vm);
          prevVnode = own_vnode (vms w vm);
          (prev, w1) = setActiveInstance vm w;
          w2 = upd_vm vm (\<lambda>i. i\<lparr> own_vnode := Some vnode \<rparr>) w1
      in case (if prevVnode = None
               then patch n vm (OldEl (el (vms w2 vm))) (Some vnode) w2
               else patch n vm (OldTree prevVnode) (Some vnode) w2) of
           None \<Rightarrow> None
         | Some (Thrown w3) \<Rightarrow> Some (Thrown w3)
         | Some (Done e w3) \<Rightarrow>
             Some (Done () (after_patch vm prevEl prev (upd_vm vm (\<lambda>i. i\<lparr> el := e \<rparr>) w3))))"
  by pat_completeness auto
termination
  by (relation "measure (\<lambda>x. case x of
        Inl (n, _) \<Rightarrow> n
      | Inr (Inl (n, _)) \<Rightarrow> n
      | Inr (Inr (n, _)) \<Rightarrow> n)") auto


text \<open>
  Modelled from the spec: \<open>Watcher.teardown\<close> (imported from observer/watcher). A
  computation is "torn down when its owning component is destroyed (unsubscribes
  from all cells)": it leaves the subscriber set of every cell it depends on
  and is marked inactive; tearing down an inactive one does nothing.
\<close>

definition teardown :: "nat \<Rightarrow> world \<Rightarrow> world" where
  "teardown r w =
     (if wactive w r
      then w\<lparr> subs := (\<lambda>c. if c \<in> set (wdeps w r) then subs w c - {r} else subs w c),
              wactive := (wactive w)(r := False) \<rparr>
      else w)"

text \<open>\<open>let i = vm._watchers.length; while (i--) { vm._watchers[i].teardown() }\<close>.\<close>

fun teardown_loop :: "nat \<Rightarrow> nat list \<Rightarrow> world \<Rightarrow> world" where
  "teardown_loop 0 ws w = w"
| "teardown_loop (Suc i) ws w = teardown_loop i ws (teardown (ws ! i) w)"

text \<open>
  Modelled from the spec: \<open>remove\<close> (imported from util), by which \<open>$destroy\<close>
  "detaches from parent's children": the first occurrence of the item is deleted
  from the array.
\<close>

definition remove :: "nat list \<Rightarrow> nat \<Rightarrow> nat list" where
  "remove arr item = remove1 item arr"


text \<open>
  \<open>isInInactiveTree(vm)\<close>:
  \<open>while (vm && (vm = vm.$parent)) { if (vm._inactive) return true } return false\<close>.
  The walk follows references in the store, so it is bounded; \<open>None\<close> is a walk that
  did not end within the bound.
\<close>

fun isInInactiveTree :: "nat \<Rightarrow> world \<Rightarrow> nat \<Rightarrow> bool option" where
  "isInInactiveTree 0 w vm = None"
| "isInInactiveTree (Suc n) w vm =
     (case parent (vms w vm) of
        None \<Rightarrow> Some False
      | Some pa \<Rightarrow> if inactive (vms w pa) = Some True then Some True else isInInactiveTree n w pa)"

text \<open>
  \<open>activateChildComponent(vm, direct)\<close>. \<open>activate_rest\<close> is its last \<open>if\<close> statement
  (\<open>vm._inactive || vm._inactive === null\<close> holds unless \<open>_inactive\<close> is \<open>false\<close>), and
  \<open>activate_children\<close> the loop
  \<open>for (let i = 0; i < vm.$children.length; i++) activateChildComponent(vm.$children[i])\<close>
  entered at index \<open>i\<close>, which reads the array of children at every round.
\<close>

function (sequential) activateChildComponent :: "nat \<Rightarrow> prog \<Rightarrow> nat \<Rightarrow> bool \<Rightarrow> world \<Rightarrow> world option"
and activate_rest :: "nat \<Rightarrow> prog \<Rightarrow> nat \<Rightarrow> world \<Rightarrow> world option"
and activate_children :: "nat \<Rightarrow> prog \<Rightarrow> nat \<Rightarrow> nat \<Rightarrow> world \<Rightarrow> world option"
where
  "activateChildComponent 0 p vm direct w = None"
| "activateChildComponent (Suc n) p vm direct w =
     (if direct
      then (let w1 = upd_vm vm (\<lambda>i. i\<lparr> directInactive := False \<rparr>) w in
            case isInInactiveTree n w1 vm of
              None \<Rightarrow> None
            | Some True \<Rightarrow> Some w1
            | Some False \<Rightarrow> activate_rest n p vm w1)
      else if directInactive (vms w vm) then Some w
      else activate_rest n p vm w)"
| "activate_rest 0 p vm w = None"
| "activate_rest (Suc n) p vm w =
     (if inactive (vms w vm) \<noteq> Some False
      then (case activate_children n p vm 0 (upd_vm vm (\<lambda>i. i\<lparr> inactive := Some False \<rparr>) w) of
              None \<Rightarrow> None
            | Some w1 \<Rightarrow> callHook n p vm ''activated'' w1)
      else Some w)"
| "activate_children 0 p vm i w = None"
| "activate_children (Suc n) p vm i w =
     (if i < length (children (vms w vm))
      then (case activateChildComponent n p (children (vms w vm) ! i) False w of
              None \<Rightarrow> None
            | Some w1 \<Rightarrow> activate_children n p vm (Suc i) w1)
      else Some w)"
  by pat_completeness auto
termination
  by (relation "measure (\<lambda>x. case x of
        Inl (n, _) \<Rightarrow> n
      | Inr (Inl (n, _)) \<Rightarrow> n
      | Inr (Inr (n, _)) \<Rightarrow> n)") auto

text \<open>\<open>deactivateChildComponent(vm, direct)\<close>, in the same way.\<close>

function (sequential) deactivateChildComponent :: "nat \<Rightarrow> prog \<Rightarrow> nat \<Rightarrow> bool \<Rightarrow> world \<Rightarrow> world option"
and deactivate_rest :: "nat \<Rightarrow> prog \<Rightarrow> nat \<Rightarrow> world \<Rightarrow> world option"
and deactivate_children :: "nat \<Rightarrow> prog \<Rightarrow> nat \<Rightarrow> nat \<Rightarrow> world \<Rightarrow> world option"
where
  "deactivateChildComponent 0 p vm direct w = None"
| "deactivateChildComponent (Suc n) p vm direct w =
     (if direct
      then (let w1 = upd_vm vm (\<lambda>i. i\<lparr> directInactive := True \<rparr>) w in
            case isInInactiveTree n w1 vm of
              None \<Rightarrow> None
            | Some True \<Rightarrow> Some w1
            | Some False \<Rightarrow> deactivate_rest n p vm w1)
      else deactivate_rest n p vm w)"
| "deactivate_rest 0 p vm w = None"
| "deactivate_rest (Suc n) p vm w =
     (if inactive (vms w vm) \<noteq> Some True
      then (case deactivate_children n p vm 0 (upd_vm vm (\<lambda>i. i\<lparr> inactive := Some True \<rparr>) w) of
              None \<Rightarrow> None
            | Some w1 \<Rightarrow> callHook n p vm ''deactivated'' w1)
      else Some w)"
| "deactivate_children 0 p vm i w = None"
| "deactivate_children (Suc n) p vm i w =
     (if i < length (children (vms w vm))
      then (case deactivateChildComponent n p (children (vms w vm) ! i) False w of
              None \<Rightarrow> None
            | Some w1 \<Rightarrow> deactivate_children n p vm (Suc i) w1)
      else Some w)"
  by pat_completeness auto
termination
  by (relation "measure (\<lambda>x. case x of
        Inl (n, _) \<Rightarrow> n
      | Inr (Inl (n, _)) \<Rightarrow> n
      | Inr (Inr (n, _)) \<Rightarrow> n)") auto


section \<open>Notions used to state the properties\<close>

text \<open>The state an outcome ends in.\<close>

fun final :: "('a, 's) outcome \<Rightarrow> 's" where
  "final (Done r s) = s"
| "final (Thrown s) = s"

text \<open>Whether an outcome is a throw.\<close>

fun threw :: "('a, 's) outcome \<Rightarrow> bool" where
  "threw (Done r s) = False"
| "threw (Thrown s) = True"

text \<open>A sequence of top-level \<open>$emit(ev, args)\<close> calls, one for each argument list.\<close>

fun emit_seq :: "nat \<Rightarrow> prog \<Rightarrow> string \<Rightarrow> val list list \<Rightarrow> bus \<Rightarrow> bus option" where
  "emit_seq n p ev [] s = Some s"
| "emit_seq n p ev (args # rest) s =
     (case emit n p 0 ev args s of None \<Rightarrow> None | Some s' \<Rightarrow> emit_seq n p ev rest s')"

text \<open>The user function that a callback ends up calling.\<close>

fun base :: "cb \<Rightarrow> nat" where
  "base (Fn g) = g"
| "base (OnceCb w ev c) = base c"
| "base (OnceHandler w ev c) = base c"

text \<open>A statement that subscribes the function \<open>f\<close>; a statement that emits.\<close>

fun subscribes :: "nat \<Rightarrow> stmt \<Rightarrow> bool" where
  "subscribes f (SOn ev g) = (g = f)"
| "subscribes f (SOnce ev g) = (g = f)"
| "subscribes f _ = False"

fun emits :: "stmt \<Rightarrow> bool" where
  "emits (SEmit ev args) = True"
| "emits _ = False"

text \<open>No function of the program ever subscribes \<open>f\<close>; the function \<open>g\<close> never emits.\<close>

definition nosub :: "prog \<Rightarrow> nat \<Rightarrow> bool" where
  "nosub p f \<longleftrightarrow> (\<forall>g k. \<forall>st \<in> set (fst (p g k)). \<not> subscribes f st)"

definition quiet :: "prog \<Rightarrow> nat \<Rightarrow> bool" where
  "quiet p g \<longleftrightarrow> (\<forall>k. \<forall>st \<in> set (fst (p g k)). \<not> emits st)"


text \<open>
  \<open>unsubscribed f s\<close>: no callback registered on the bus is \<open>f\<close> or wraps it.
  \<open>pending f W ev s\<close>: the same, except that the closure \<open>W\<close> may be registered for
  \<open>ev\<close>, at most once.
\<close>

definition unsubscribed :: "nat \<Rightarrow> bus \<Rightarrow> bool" where
  "unsubscribed f s \<longleftrightarrow> wf_bus s \<and> (\<forall>e. \<forall>c \<in> set (registered s e). base c \<noteq> f)"

definition pending :: "nat \<Rightarrow> cb \<Rightarrow> string \<Rightarrow> bus \<Rightarrow> bool" where
  "pending f W ev s \<longleftrightarrow>
     wf_bus s \<and> (\<forall>e. \<forall>c \<in> set (registered s e). base c \<noteq> f \<or> (c = W \<and> e = ev)) \<and>
     count_list (registered s ev) W \<le> 1"


text \<open>The effect of a statement that neither emits nor throws.\<close>

fun bus_step :: "stmt \<Rightarrow> bus \<Rightarrow> bus" where
  "bus_step (SOn ev g) s = on ev (Fn g) s"
| "bus_step (SOnce ev g) s = once ev (Fn g) s"
| "bus_step SOffAll s = off_all s"
| "bus_step (SOffEvent ev) s = off_one ev None s"
| "bus_step (SOffFn ev g) s = off_one ev (Some (Fn g)) s"
| "bus_step st s = s"


text \<open>
  \<open>deeper d s s'\<close>: the trace of \<open>s'\<close> extends that of \<open>s\<close>, by invocations at nesting
  depth \<open>d\<close> or more only.
\<close>

definition deeper :: "nat \<Rightarrow> bus \<Rightarrow> bus \<Rightarrow> bool" where
  "deeper d s s' \<longleftrightarrow> (\<exists>ext. trace s' = trace s @ ext \<and> (\<forall>e \<in> set ext. d \<le> fst e))"

text \<open>
  \<open>keeps c w w'\<close>: between \<open>w\<close> and \<open>w'\<close> the activation flags of instance \<open>c\<close> did not
  change and its \<open>activated\<close> hook was not called. \<open>sticky c w w'\<close>: a set
  \<open>_directInactive\<close> flag and a true \<open>_inactive\<close> flag of \<open>c\<close> are still so in \<open>w'\<close>.
\<close>

definition keeps :: "nat \<Rightarrow> world \<Rightarrow> world \<Rightarrow> bool" where
  "keeps c w w' \<longleftrightarrow>
     inactive (vms w' c) = inactive (vms w c) \<and>
     directInactive (vms w' c) = directInactive (vms w c) \<and>
     (\<exists>ext. hooklog w' = hooklog w @ ext \<and> (c, ''activated'') \<notin> set ext)"

definition sticky :: "nat \<Rightarrow> world \<Rightarrow> world \<Rightarrow> bool" where
  "sticky c w w' \<longleftrightarrow>
     (directInactive (vms w c) \<longrightarrow> directInactive (vms w' c)) \<and>
     (inactive (vms w c) = Some True \<longrightarrow> inactive (vms w' c) = Some True)"

text \<open>
  The links between cells and computations are consistent: a subscriber of a cell
  is an active computation that lists the cell among its dependencies.
  \<open>torn w r\<close>: computation \<open>r\<close> is inactive and subscribed to no cell, so no write
  to a cell reaches it.
\<close>

definition links_ok :: "world \<Rightarrow> bool" where
  "links_ok w \<longleftrightarrow> (\<forall>r c. r \<in> subs w c \<longrightarrow> wactive w r \<and> c \<in> set (wdeps w r))"


text \<open>Every patch call in the list was made while the patched instance itself was
  the active instance.\<close>

definition attributed :: "(nat \<times> nat option \<times> patch_old \<times> nat option) list \<Rightarrow> bool" where
  "attributed es \<longleftrightarrow> (\<forall>e \<in> set es. fst (snd e) = Some (fst e))"

text \<open>
  \<open>mounts_within h w t\<close>: the trees that patching tree \<open>t\<close> mounts, and the trees
  that patching those mounts, and so on, are nested fewer than \<open>h\<close> deep. A tree
  that mounts nothing satisfies it for \<open>h = 1\<close>.
\<close>

fun mounts_within :: "nat \<Rightarrow> world \<Rightarrow> nat \<Rightarrow> bool" where
  "mounts_within 0 w t = False"
| "mounts_within (Suc h) w t = (\<forall>ct \<in> set (comps (trees w t)). mounts_within h w (snd ct))"

section \<open>Example programs\<close>

text \<open>
  Function 1 unsubscribes function 2, subscribes function 4, emits another event
  and throws; function 2 clears all subscriptions; the others do nothing.
\<close>

definition prog_meddling :: prog where
  "prog_meddling f k =
     (if f = 1 then ([SOffFn ''e'' 2, SOn ''e'' 4, SEmit ''x'' [], SThrow], VUndef)
      else if f = 2 then ([SOffAll], VUndef)
      else ([], VUndef))"

text \<open>The same without the emission.\<close>

definition prog_unsub_throw :: prog where
  "prog_unsub_throw f k =
     (if f = 1 then ([SOffFn ''e'' 2, SOn ''e'' 4, SThrow], VUndef)
      else if f = 2 then ([SOffAll], VUndef)
      else ([], VUndef))"

text \<open>Function 1 emits \<open>e\<close> the first time it is called; function 2 does nothing.\<close>

definition prog_reemit_other :: prog where
  "prog_reemit_other f k = (if f = 1 \<and> k = 0 then ([SEmit ''e'' []], VUndef) else ([], VUndef))"

text \<open>
  Function 2 emits \<open>e\<close> and \<open>x\<close> whenever it is called; function 1 subscribes function 3
  to \<open>x\<close>; function 3 emits \<open>y\<close>.
\<close>

definition prog_reemit_self :: prog where
  "prog_reemit_self f k =
     (if f = 2 then ([SEmit ''e'' [], SEmit ''x'' [VInt 1]], VUndef)
      else if f = 1 then ([SOn ''x'' 3], VUndef)
      else if f = 3 then ([SEmit ''y'' []], VUndef)
      else ([], VUndef))"

text \<open>Every function does nothing and returns \<open>null\<close>.\<close>

definition prog_null :: prog where
  "prog_null f k = ([], VNull)"

text \<open>Every function emits \<open>e\<close> on its first call only and returns \<open>undefined\<close>.\<close>

definition prog_reemit_first :: prog where
  "prog_reemit_first f k = (if k = 0 then ([SEmit ''e'' []], VUndef) else ([], VUndef))"

text \<open>Render options whose render function returns two roots; a state with two
  nodes and no previous tree.\<close>

definition two_roots :: roptions where
  "two_roots = \<lparr> render = (\<lambda>_. Returns (JArray [JNode 0, JNode 1])), renderError = None,
     parentVnode = None \<rparr>"

definition fresh_rstate :: rstate where
  "fresh_rstate = \<lparr> vnodes = (\<lambda>_. \<lparr> isComment = False, vparent = None \<rparr>), nextVnode = 2,
     vnode_tree = None, placeholder = None, currentRenderingInstance = None,
     handled = [], warned = [] \<rparr>"

text \<open>All functions do nothing; all functions throw.\<close>

definition no_prog :: prog where
  "no_prog f k = ([], VUndef)"

definition prog_throw :: prog where
  "prog_throw f k = ([SThrow], VUndef)"

text \<open>An instance without relatives, hooks, watchers or trees; a world of such.\<close>

definition blank_vm :: component where
  "blank_vm = \<lparr> bus = initEvents, hooks = (\<lambda>_. []), abstract = False, parent = None,
     children = [], inactive = Some False, directInactive = False, isMounted = True,
     isDestroyed = False, isBeingDestroyed = False, watcher = None, watchers = [],
     own_vnode = None, dollar_vnode = None, el = None, data_ob = None \<rparr>"

definition blank_world :: world where
  "blank_world = \<lparr> vms = (\<lambda>_. blank_vm), activeInstance = None, target = None, targetStack = [],
     trees = (\<lambda>_. \<lparr> comps = [], host = 0, faulty = False, tparent = None \<rparr>),
     vue_ref = (\<lambda>_. None), wactive = (\<lambda>_. False), wdeps = (\<lambda>_. []), subs = (\<lambda>_. {}),
     vmCount = (\<lambda>_. 0), hooklog = [], patchlog = [] \<rparr>"

text \<open>Three instances in a line: 0 is the parent of 1, which is the parent of 2.\<close>

definition chain_world :: world where
  "chain_world = blank_world\<lparr> vms := (\<lambda>_. blank_vm)
     (0 := blank_vm\<lparr> children := [1] \<rparr>,
      1 := blank_vm\<lparr> parent := Some 0, children := [2] \<rparr>,
      2 := blank_vm\<lparr> parent := Some 1 \<rparr>) \<rparr>"


text \<open>
  Patching tree 7 for instance 0 mounts its child 1 with tree 8; patching tree 9
  throws; patching tree 6 mounts the child 1 with tree 9. Instance 0 has a
  \<open>mounted\<close> handler; the tracking slot is occupied.
\<close>

definition nested_world :: world where
  "nested_world = blank_world\<lparr>
     vms := (\<lambda>_. blank_vm)(0 := blank_vm\<lparr> children := [1], hooks := (\<lambda>_. [])(''mounted'' := [1]) \<rparr>,
                            1 := blank_vm\<lparr> parent := Some 0 \<rparr>),
     trees := (\<lambda>_. \<lparr> comps = [], host = 0, faulty = False, tparent = None \<rparr>)
       (6 := \<lparr> comps = [(1, 9)], host = 60, faulty = False, tparent = None \<rparr>,
        7 := \<lparr> comps = [(1, 8)], host = 70, faulty = False, tparent = None \<rparr>,
        8 := \<lparr> comps = [], host = 80, faulty = False, tparent = None \<rparr>,
        9 := \<lparr> comps = [], host = 90, faulty = True, tparent = None \<rparr>),
     target := Some 4, targetStack := [None] \<rparr>"

section \<open>Properties of the event bus\<close>

subsection \<open>Unsubscribing one handler\<close>

lemma off_loop_skip:
  assumes "cb_matches c fn" and "\<forall>x \<in> set post1. \<not> cb_matches x fn"
  shows "off_loop (length pre + Suc (length post1)) fn (pre @ c # post1 @ post2) = pre @ post1 @ post2"
  using assms
proof (induction post1 arbitrary: post2 rule: rev_induct)
  case Nil
  then show ?case by (simp add: nth_append)
next
  case (snoc x xs)
  have "(pre @ c # (xs @ [x]) @ post2) ! (length pre + Suc (length xs)) = x"
    by (simp add: nth_append)
  moreover have "\<not> cb_matches x fn" using snoc.prems by simp
  moreover have "off_loop (length pre + Suc (length xs)) fn (pre @ c # xs @ ([x] @ post2)) = pre @ xs @ ([x] @ post2)"
    using snoc.IH[of "[x] @ post2"] snoc.prems by simp
  ultimately show ?case by simp
qed

lemma off_loop_last:
  assumes "cb_matches c fn" and "\<forall>x \<in> set post. \<not> cb_matches x fn"
  shows "off_loop (length (pre @ c # post)) fn (pre @ c # post) = pre @ post"
  using off_loop_skip[OF assms, of pre "[]"] by simp

lemma off_loop_none:
  "i \<le> length cbs \<Longrightarrow> \<forall>x \<in> set (take i cbs). \<not> cb_matches x fn \<Longrightarrow> off_loop i fn cbs = cbs"
proof (induction i)
  case 0
  then show ?case by simp
next
  case (Suc i)
  then have "cbs ! i \<in> set (take (Suc i) cbs)" by (simp add: take_Suc_conv_app_nth)
  with Suc show ?case by (auto simp: take_Suc_conv_app_nth)
qed

lemma registered_off_one_other:
  assumes "wf_bus s" "ev' \<noteq> ev"
  shows "registered (off_one ev (Some fn) s) ev' = registered s ev'"
  using assms unfolding registered_def off_one_def wf_bus_def
  by (auto split: option.splits)

text \<open>
  C4. When at least one callback registered for \<open>ev\<close> matches \<open>fn\<close> (it is \<open>fn\<close>, or
  its \<open>fn\<close> property is), \<open>$off(ev, fn)\<close> removes exactly one registration, the
  last-registered match: the list \<open>pre @ c # post\<close>, with \<open>c\<close> matching and nothing in
  \<open>post\<close> matching, becomes \<open>pre @ post\<close>. So of \<open>n\<close> matches \<open>n - 1\<close> stay, in their
  places, and the registrations of every other event are unchanged.
\<close>

theorem off_removes_last_match:
  assumes wf: "wf_bus s"
    and ex: "\<exists>x \<in> set (registered s ev). cb_matches x fn"
  shows "\<exists>pre c post.
           registered s ev = pre @ c # post \<and> cb_matches c fn \<and>
           (\<forall>x \<in> set post. \<not> cb_matches x fn) \<and>
           registered (off_one ev (Some fn) s) ev = pre @ post \<and>
           (\<forall>ev'. ev' \<noteq> ev \<longrightarrow> registered (off_one ev (Some fn) s) ev' = registered s ev')"
proof -
  from ex obtain pre c post where
    d: "registered s ev = pre @ c # post" "cb_matches c fn" "\<forall>x \<in> set post. \<not> cb_matches x fn"
    using split_list_last_prop[of "registered s ev" "\<lambda>x. cb_matches x fn"] by blast
  from d(1) obtain a where a: "events s ev = Some a" "arrays s a = pre @ c # post"
    by (auto simp: registered_def split: option.splits)
  have "registered (off_one ev (Some fn) s) ev = pre @ post"
    using a off_loop_last[OF d(2,3), of pre]
    by (simp add: registered_def off_one_def)
  with d registered_off_one_other[OF wf] show ?thesis by blast
qed

text \<open>
  The bus after \<open>$on("a", f1)\<close>, \<open>$on("a", f2)\<close>, \<open>$once("a", f1)\<close>, \<open>$on("b", f7)\<close>:
  \<open>$off("a", f1)\<close> removes the once-closure, the last of the two matches.
\<close>

theorem off_removes_last_match_witness:
  "wf_bus (on ''b'' (Fn 7) (once ''a'' (Fn 1) (on ''a'' (Fn 2) (on ''a'' (Fn 1) initEvents)))) \<and>
   registered (on ''b'' (Fn 7) (once ''a'' (Fn 1) (on ''a'' (Fn 2) (on ''a'' (Fn 1) initEvents)))) ''a''
     = [Fn 1, Fn 2, OnceCb 0 ''a'' (Fn 1)] \<and>
   registered (off_one ''a'' (Some (Fn 1))
       (on ''b'' (Fn 7) (once ''a'' (Fn 1) (on ''a'' (Fn 2) (on ''a'' (Fn 1) initEvents))))) ''a''
     = [Fn 1, Fn 2] \<and>
   registered (off_one ''a'' (Some (Fn 1))
       (on ''b'' (Fn 7) (once ''a'' (Fn 1) (on ''a'' (Fn 2) (on ''a'' (Fn 1) initEvents))))) ''b''
     = [Fn 7]"
proof -
  let ?s = "on ''b'' (Fn 7) (once ''a'' (Fn 1) (on ''a'' (Fn 2) (on ''a'' (Fn 1) initEvents)))"
  have wf: "wf_bus ?s"
    by (simp add: wf_bus_def on_def once_def initEvents_def hookRE_def Let_def)
  have reg: "registered ?s ''a'' = [Fn 1, Fn 2, OnceCb 0 ''a'' (Fn 1)]"
    by (simp add: registered_def on_def once_def initEvents_def hookRE_def Let_def)
  have regb: "registered ?s ''b'' = [Fn 7]"
    by (simp add: registered_def on_def once_def initEvents_def hookRE_def Let_def)
  have ex: "\<exists>x \<in> set (registered ?s ''a''). cb_matches x (Fn 1)"
    unfolding reg by (simp add: cb_matches_def)
  from off_removes_last_match[OF wf ex] obtain pre c post where
    d: "registered ?s ''a'' = pre @ c # post" "cb_matches c (Fn 1)"
       "\<forall>x \<in> set post. \<not> cb_matches x (Fn 1)"
       "registered (off_one ''a'' (Some (Fn 1)) ?s) ''a'' = pre @ post"
       "\<forall>ev'. ev' \<noteq> ''a'' \<longrightarrow> registered (off_one ''a'' (Some (Fn 1)) ?s) ev' = registered ?s ev'"
    by blast
  from d(5) regb have b: "registered (off_one ''a'' (Some (Fn 1)) ?s) ''b'' = [Fn 7]" by simp
  from d(1) reg have e: "pre @ c # post = [Fn 1, Fn 2, OnceCb 0 ''a'' (Fn 1)]" by simp
  have "post = []"
  proof (rule ccontr)
    assume "post \<noteq> []"
    then have "last post \<in> set post" by simp
    moreover have "last post = OnceCb 0 ''a'' (Fn 1)"
      using e \<open>post \<noteq> []\<close> by (metis last.simps last_appendR list.distinct(1))
    ultimately show False using d(3) by (auto simp: cb_matches_def)
  qed
  with e have "pre = [Fn 1, Fn 2]" by simp
  with d(4) \<open>post = []\<close> have "registered (off_one ''a'' (Some (Fn 1)) ?s) ''a'' = [Fn 1, Fn 2]" by simp
  with wf reg b show ?thesis by simp
qed

subsection \<open>Rendering\<close>

text \<open>
  C8. When the render function throws, the instance has a previous tree
  (\<open>vm._vnode\<close>) and no \<open>renderError\<close> option is in play (there is none, or the build
  is a production build, where it is ignored), \<open>_render\<close> hands the error to the
  error sink under the label \<open>render\<close> and returns the previous tree itself: the
  same node object, no placeholder is created, and \<open>vm._vnode\<close> still refers to it.
\<close>

theorem render_error_reuses_last_tree:
  assumes thr: "render opts (before_render opts vm s) = Throws e"
    and last: "vnode_tree s = Some v"
    and noRE: "production \<or> renderError opts = None"
  shows "fst (prototype_render production opts vm s) = v \<and>
         vnode_tree (snd (prototype_render production opts vm s)) = Some v \<and>
         handled (snd (prototype_render production opts vm s)) = handled s @ [(e, ''render'')] \<and>
         nextVnode (snd (prototype_render production opts vm s)) = nextVnode s \<and>
         currentRenderingInstance (snd (prototype_render production opts vm s)) = None"
proof -
  have t: "render_try production opts vm s = (JNode v, handleError e ''render'' (before_render opts vm s))"
    using thr last noRE
    by (auto simp: render_try_def Let_def tree_val_def handleError_def before_render_def)
  show ?thesis
    by (simp add: prototype_render_def t Let_def handleError_def before_render_def last)
qed

text \<open>An instance whose last tree is node 3 and whose render function throws.\<close>

theorem render_error_reuses_last_tree_witness:
  "fst (prototype_render False \<lparr> render = (\<lambda>_. Throws ''boom''), renderError = None, parentVnode = None \<rparr> 0
     \<lparr> vnodes = (\<lambda>_. \<lparr> isComment = False, vparent = None \<rparr>), nextVnode = 5,
       vnode_tree = Some 3, placeholder = None, currentRenderingInstance = None,
       handled = [], warned = [] \<rparr>) = 3"
  using render_error_reuses_last_tree[of
     "\<lparr> render = (\<lambda>_. Throws ''boom''), renderError = None, parentVnode = None \<rparr>" 0
     "\<lparr> vnodes = (\<lambda>_. \<lparr> isComment = False, vparent = None \<rparr>), nextVnode = 5,
       vnode_tree = Some 3, placeholder = None, currentRenderingInstance = None,
       handled = [], warned = [] \<rparr>" "''boom''" 3 False]
  by simp

text \<open>
  C9, as amended. When the render function returns \<open>v\<close>:
  \<^item> a node, or an array whose only element is a node, gives that node; nothing is
    reported and no placeholder is created;
  \<^item> an array of any other length is replaced by a new empty placeholder node, and
    the multiple-roots message is reported in non-production builds only;
  \<^item> a value that is neither a node nor an array is replaced by a new empty
    placeholder node, and nothing is reported;
  \<^item> an array whose only element \<open>x\<close> is not a node is replaced by a new empty
    placeholder node as well; the multiple-roots message is reported exactly when
    \<open>x\<close> is itself an array and the build is not a production build.
  So the message is given, in non-production builds, for every result that is still
  an array after the single unwrapping step, and for nothing else.
\<close>

theorem render_result_normalised:
  assumes ret: "render opts (before_render opts vm s) = Returns v"
  shows "(\<forall>r. v = JNode r \<or> v = JArray [JNode r] \<longrightarrow>
            fst (prototype_render production opts vm s) = r \<and>
            nextVnode (snd (prototype_render production opts vm s)) = nextVnode s \<and>
            warned (snd (prototype_render production opts vm s)) = warned s) \<and>
         (\<forall>xs. v = JArray xs \<and> length xs \<noteq> 1 \<longrightarrow>
            fst (prototype_render production opts vm s) = nextVnode s \<and>
            nextVnode (snd (prototype_render production opts vm s)) = Suc (nextVnode s) \<and>
            isComment (vnodes (snd (prototype_render production opts vm s)) (nextVnode s)) \<and>
            warned (snd (prototype_render production opts vm s)) =
              warned s @ (if production then [] else [multi_root_msg])) \<and>
         (v = JOther \<longrightarrow>
            fst (prototype_render production opts vm s) = nextVnode s \<and>
            nextVnode (snd (prototype_render production opts vm s)) = Suc (nextVnode s) \<and>
            isComment (vnodes (snd (prototype_render production opts vm s)) (nextVnode s)) \<and>
            warned (snd (prototype_render production opts vm s)) = warned s) \<and>
         (\<forall>x. v = JArray [x] \<and> (\<forall>r. x \<noteq> JNode r) \<longrightarrow>
            fst (prototype_render production opts vm s) = nextVnode s \<and>
            nextVnode (snd (prototype_render production opts vm s)) = Suc (nextVnode s) \<and>
            isComment (vnodes (snd (prototype_render production opts vm s)) (nextVnode s)) \<and>
            warned (snd (prototype_render production opts vm s)) =
              warned s @ (if \<not> production \<and> is_array x then [multi_root_msg] else []))"
proof -
  have t: "render_try production opts vm s = (v, before_render opts vm s)"
    using ret by (simp add: render_try_def Let_def)
  have u: "length xs \<noteq> 1 \<Longrightarrow> unwrap_single (JArray xs) = JArray xs" for xs
  proof (cases xs)
    case Nil
    then show ?thesis by simp
  next
    case (Cons a as)
    assume "length xs \<noteq> 1"
    with Cons show ?thesis by (cases as) auto
  qed
  have n: "fst (prototype_render production opts vm s) = r \<and>
            nextVnode (snd (prototype_render production opts vm s)) = nextVnode s \<and>
            warned (snd (prototype_render production opts vm s)) = warned s"
    if "v = JNode r \<or> v = JArray [JNode r]" for r
    using that by (auto simp: prototype_render_def t Let_def before_render_def)
  have m: "fst (prototype_render production opts vm s) = nextVnode s \<and>
            nextVnode (snd (prototype_render production opts vm s)) = Suc (nextVnode s) \<and>
            isComment (vnodes (snd (prototype_render production opts vm s)) (nextVnode s)) \<and>
            warned (snd (prototype_render production opts vm s)) =
              warned s @ (if production then [] else [multi_root_msg])"
    if "v = JArray xs \<and> length xs \<noteq> 1" for xs
    using that by (auto simp: prototype_render_def t Let_def before_render_def createEmptyVNode_def u)
  have o: "fst (prototype_render production opts vm s) = nextVnode s \<and>
            nextVnode (snd (prototype_render production opts vm s)) = Suc (nextVnode s) \<and>
            isComment (vnodes (snd (prototype_render production opts vm s)) (nextVnode s)) \<and>
            warned (snd (prototype_render production opts vm s)) = warned s"
    if "v = JOther"
    using that by (auto simp: prototype_render_def t Let_def before_render_def createEmptyVNode_def)
  have e: "fst (prototype_render production opts vm s) = nextVnode s \<and>
            nextVnode (snd (prototype_render production opts vm s)) = Suc (nextVnode s) \<and>
            isComment (vnodes (snd (prototype_render production opts vm s)) (nextVnode s)) \<and>
            warned (snd (prototype_render production opts vm s)) =
              warned s @ (if \<not> production \<and> is_array x then [multi_root_msg] else [])"
    if "v = JArray [x] \<and> (\<forall>r. x \<noteq> JNode r)" for x
    using that by (cases x) (auto simp: prototype_render_def t Let_def before_render_def createEmptyVNode_def)
  from n m o e show ?thesis by blast
qed


text \<open>
  In a production build a render function that returns two roots gets the
  placeholder, and nothing is reported.
\<close>

theorem render_multi_root_counterexample:
  "warned (snd (prototype_render True two_roots 0 fresh_rstate)) = [] \<and>
   fst (prototype_render True two_roots 0 fresh_rstate) = 2 \<and>
   isComment (vnodes (snd (prototype_render True two_roots 0 fresh_rstate)) 2)"
  by (simp add: two_roots_def fresh_rstate_def prototype_render_def render_try_def before_render_def
        createEmptyVNode_def Let_def)

text \<open>A single-element array, a two-element array, a non-node value and an array
  nested in a single-element array, in a development build.\<close>

theorem render_result_normalised_witness:
  "fst (prototype_render False
      \<lparr> render = (\<lambda>_. Returns (JArray [JNode 7])), renderError = None, parentVnode = None \<rparr> 0
      \<lparr> vnodes = (\<lambda>_. \<lparr> isComment = False, vparent = None \<rparr>), nextVnode = 9,
        vnode_tree = None, placeholder = None, currentRenderingInstance = None,
        handled = [], warned = [] \<rparr>) = 7 \<and>
   fst (prototype_render False
      \<lparr> render = (\<lambda>_. Returns (JArray [JNode 7, JNode 8])), renderError = None, parentVnode = None \<rparr> 0
      \<lparr> vnodes = (\<lambda>_. \<lparr> isComment = False, vparent = None \<rparr>), nextVnode = 9,
        vnode_tree = None, placeholder = None, currentRenderingInstance = None,
        handled = [], warned = [] \<rparr>) = 9 \<and>
   warned (snd (prototype_render False
      \<lparr> render = (\<lambda>_. Returns (JArray [JNode 7, JNode 8])), renderError = None, parentVnode = None \<rparr> 0
      \<lparr> vnodes = (\<lambda>_. \<lparr> isComment = False, vparent = None \<rparr>), nextVnode = 9,
        vnode_tree = None, placeholder = None, currentRenderingInstance = None,
        handled = [], warned = [] \<rparr>)) = [multi_root_msg] \<and>
   fst (prototype_render False
      \<lparr> render = (\<lambda>_. Returns JOther), renderError = None, parentVnode = None \<rparr> 0
      \<lparr> vnodes = (\<lambda>_. \<lparr> isComment = False, vparent = None \<rparr>), nextVnode = 9,
        vnode_tree = None, placeholder = None, currentRenderingInstance = None,
        handled = [], warned = [] \<rparr>) = 9 \<and>
   fst (prototype_render False
      \<lparr> render = (\<lambda>_. Returns (JArray [JArray [JNode 7]])), renderError = None, parentVnode = None \<rparr> 0
      \<lparr> vnodes = (\<lambda>_. \<lparr> isComment = False, vparent = None \<rparr>), nextVnode = 9,
        vnode_tree = None, placeholder = None, currentRenderingInstance = None,
        handled = [], warned = [] \<rparr>) = 9 \<and>
   warned (snd (prototype_render False
      \<lparr> render = (\<lambda>_. Returns (JArray [JArray [JNode 7]])), renderError = None, parentVnode = None \<rparr> 0
      \<lparr> vnodes = (\<lambda>_. \<lparr> isComment = False, vparent = None \<rparr>), nextVnode = 9,
        vnode_tree = None, placeholder = None, currentRenderingInstance = None,
        handled = [], warned = [] \<rparr>)) = [multi_root_msg] \<and>
   warned (snd (prototype_render False
      \<lparr> render = (\<lambda>_. Returns (JArray [JOther])), renderError = None, parentVnode = None \<rparr> 0
      \<lparr> vnodes = (\<lambda>_. \<lparr> isComment = False, vparent = None \<rparr>), nextVnode = 9,
        vnode_tree = None, placeholder = None, currentRenderingInstance = None,
        handled = [], warned = [] \<rparr>)) = []"
proof -
  let ?s = "\<lparr> vnodes = (\<lambda>_. \<lparr> isComment = False, vparent = None \<rparr>), nextVnode = 9,
        vnode_tree = None, placeholder = None, currentRenderingInstance = None,
        handled = [], warned = [] \<rparr>"
  let ?o = "\<lambda>v. \<lparr> render = (\<lambda>_. Returns v), renderError = None, parentVnode = None \<rparr>"
  have a: "fst (prototype_render False (?o (JArray [JNode 7])) 0 ?s) = 7"
    using render_result_normalised[of "?o (JArray [JNode 7])" 0 ?s "JArray [JNode 7]" False] by simp
  have b: "fst (prototype_render False (?o (JArray [JNode 7, JNode 8])) 0 ?s) = 9 \<and>
           warned (snd (prototype_render False (?o (JArray [JNode 7, JNode 8])) 0 ?s)) = [multi_root_msg]"
    using render_result_normalised[of "?o (JArray [JNode 7, JNode 8])" 0 ?s "JArray [JNode 7, JNode 8]" False] by simp
  have c: "fst (prototype_render False (?o JOther) 0 ?s) = 9"
    using render_result_normalised[of "?o JOther" 0 ?s JOther False] by simp
  have d: "fst (prototype_render False (?o (JArray [JArray [JNode 7]])) 0 ?s) = 9 \<and>
           warned (snd (prototype_render False (?o (JArray [JArray [JNode 7]])) 0 ?s)) = [multi_root_msg]"
    using render_result_normalised[of "?o (JArray [JArray [JNode 7]])" 0 ?s "JArray [JArray [JNode 7]]" False] by simp
  have e: "warned (snd (prototype_render False (?o (JArray [JOther])) 0 ?s)) = []"
    using render_result_normalised[of "?o (JArray [JOther])" 0 ?s "JArray [JOther]" False] by simp
  from a b c d e show ?thesis by simp
qed

subsection \<open>Provide and inject\<close>

text \<open>The walk up the chain of parents returns the value of the nearest provider.\<close>

lemma find_provided_nearest:
  "chain vm = pre @ src # rest \<Longrightarrow> \<forall>x \<in> set pre. \<not> provides x k \<Longrightarrow> provides src k
   \<Longrightarrow> find_provided vm k = Some (provided_value src k)"
proof (induction vm k arbitrary: pre rule: find_provided.induct)
  case (1 u pr par k)
  show ?case
  proof (cases pre)
    case Nil
    with 1 show ?thesis by (auto simp: provides_def provided_value_def split: option.splits)
  next
    case (Cons x xs)
    with 1(2) have x: "x = Inst u pr par" by simp
    with 1(3) Cons have np: "\<not> provides (Inst u pr par) k" by simp
    from 1(2) Cons obtain p where p: "par = Some p" "chain p = xs @ src # rest"
      by (auto split: option.splits)
    have "find_provided p k = Some (provided_value src k)"
      using 1(1)[of p xs] p 1(3,4) Cons np
      by (auto simp: provides_def split: option.splits)
    then show ?thesis using np p
      by (auto simp: provides_def split: option.splits)
  qed
qed

lemma find_provided_none:
  "\<forall>x \<in> set (chain vm). \<not> provides x k \<Longrightarrow> find_provided vm k = None"
  by (induction vm k rule: find_provided.induct)
     (auto simp: provides_def split: option.splits)

lemma resolve_key_eq:
  "resolve_key production inject vm key acc =
     (if key = ''__ob__'' then acc
      else case key_value inject vm key of
             Some v \<Rightarrow> ((fst acc)(key \<mapsto> v), snd acc)
           | None \<Rightarrow> (fst acc, if production then snd acc else snd acc @ [not_found_msg key]))"
  by (cases acc) (auto simp: resolve_key_def key_value_def Let_def split: option.splits dflt.splits)

lemma not_found_msg_inj: "not_found_msg a = not_found_msg b \<longleftrightarrow> a = b"
  by (simp add: not_found_msg_def)

lemma foldl_resolve_fst:
  "fst (foldl (\<lambda>acc key. resolve_key production inject vm key acc) acc ks) k =
     (if k \<in> set ks \<and> k \<noteq> ''__ob__'' \<and> key_value inject vm k \<noteq> None
      then key_value inject vm k else fst acc k)"
proof (induction ks arbitrary: acc)
  case Nil
  then show ?case by simp
next
  case (Cons a ks)
  show ?case
    unfolding foldl_Cons Cons.IH
    by (auto simp: resolve_key_eq split: option.splits)
qed

lemma foldl_resolve_snd:
  "set (snd (foldl (\<lambda>acc key. resolve_key production inject vm key acc) acc ks)) =
     set (snd acc) \<union>
     {not_found_msg k | k. k \<in> set ks \<and> k \<noteq> ''__ob__'' \<and> key_value inject vm k = None \<and> \<not> production}"
proof (induction ks arbitrary: acc)
  case Nil
  then show ?case by simp
next
  case (Cons a ks)
  show ?case
    unfolding foldl_Cons Cons.IH
    by (auto simp: resolve_key_eq split: option.splits)
qed

text \<open>
  C7, as amended. For a declared key \<open>k\<close> other than the reserved \<open>__ob__\<close>, with
  entry \<open>decl\<close>: \<open>resolveInject\<close> returns a result object in which
  \<^item> \<open>k\<close> has the value provided under \<open>from_key decl\<close> by the nearest member of the chain
    (the instance itself first) that provides that key; farther providers do not
    matter;
  \<^item> when no member of the chain provides it, \<open>k\<close> has the declared default value, or
    the result of the default function called with the requesting instance;
  \<^item> when there is no default either, \<open>k\<close> is absent, and the warning for \<open>k\<close> is
    given exactly in non-production builds.
\<close>

theorem resolveInject_key:
  assumes decl: "map_of inject k = Some decl" and k: "k \<noteq> ''__ob__''"
  shows "\<exists>res warns. resolveInject production (Some inject) vm = Some (res, warns) \<and>
     (\<forall>pre src rest. chain vm = pre @ src # rest \<and> (\<forall>x \<in> set pre. \<not> provides x (from_key decl))
         \<and> provides src (from_key decl)
       \<longrightarrow> res k = Some (provided_value src (from_key decl))) \<and>
     ((\<forall>x \<in> set (chain vm). \<not> provides x (from_key decl)) \<longrightarrow>
        (case default_opt decl of
           Some (DVal v) \<Rightarrow> res k = Some v
         | Some (DFun f) \<Rightarrow> res k = Some (f vm)
         | None \<Rightarrow> res k = None \<and> (not_found_msg k \<in> set warns \<longleftrightarrow> \<not> production)))"
proof -
  let ?r = "foldl (\<lambda>acc key. resolve_key production inject vm key acc) (Map.empty, []) (map fst inject)"
  have r: "resolveInject production (Some inject) vm = Some (fst ?r, snd ?r)"
    by (simp add: resolveInject_def)
  from decl have kin: "k \<in> set (map fst inject)"
    by (metis map_of_eq_None_iff option.distinct(1) set_map)
  have v: "fst ?r k = key_value inject vm k"
    using kin k by (simp add: foldl_resolve_fst)
  have w: "not_found_msg k \<in> set (snd ?r) \<longleftrightarrow> key_value inject vm k = None \<and> \<not> production"
    using kin k by (auto simp: foldl_resolve_snd not_found_msg_inj)
  have near: "res = fst ?r \<Longrightarrow> chain vm = pre @ src # rest \<Longrightarrow> \<forall>x \<in> set pre. \<not> provides x (from_key decl)
      \<Longrightarrow> provides src (from_key decl) \<Longrightarrow> res k = Some (provided_value src (from_key decl))"
    for res pre src rest
    using find_provided_nearest[of vm pre src rest "from_key decl"] v decl
    by (simp add: key_value_def)
  have none: "\<forall>x \<in> set (chain vm). \<not> provides x (from_key decl) \<Longrightarrow>
        (case default_opt decl of
           Some (DVal v) \<Rightarrow> fst ?r k = Some v
         | Some (DFun f) \<Rightarrow> fst ?r k = Some (f vm)
         | None \<Rightarrow> fst ?r k = None \<and> (not_found_msg k \<in> set (snd ?r) \<longleftrightarrow> \<not> production))"
    using find_provided_none[of vm "from_key decl"] v w decl
    by (auto simp: key_value_def split: option.splits dflt.splits)
  show ?thesis
    using r near none by blast
qed


text \<open>
  A declaration under the key \<open>__ob__\<close> is skipped, so its default is not used; and in
  a production build a key without provider and default gives no warning.
\<close>

theorem resolveInject_reserved_key_counterexample:
  "resolveInject False
     (Some [(''__ob__'', \<lparr> from_key = ''__ob__'', default_opt = Some (DVal (VInt 1)) \<rparr>)])
     (Inst 0 None None) \<noteq> None \<and>
   fst (the (resolveInject False
     (Some [(''__ob__'', \<lparr> from_key = ''__ob__'', default_opt = Some (DVal (VInt 1)) \<rparr>)])
     (Inst 0 None None))) ''__ob__'' = None \<and>
   resolveInject True
     (Some [(''theme'', \<lparr> from_key = ''theme'', default_opt = None \<rparr>)])
     (Inst 0 None None) \<noteq> None \<and>
   fst (the (resolveInject True
     (Some [(''theme'', \<lparr> from_key = ''theme'', default_opt = None \<rparr>)])
     (Inst 0 None None))) ''theme'' = None \<and>
   snd (the (resolveInject True
     (Some [(''theme'', \<lparr> from_key = ''theme'', default_opt = None \<rparr>)])
     (Inst 0 None None))) = []"
  by (simp add: resolveInject_def resolve_key_def Let_def)

text \<open>
  The child asks for \<open>theme\<close>, \<open>size\<close> and \<open>gone\<close>; its parent provides \<open>theme = dark\<close>,
  its grandparent \<open>theme = light\<close>; \<open>size\<close> has the default 3, \<open>gone\<close> has none.
\<close>

theorem resolveInject_key_witness:
  "\<exists>res warns.
     resolveInject False
       (Some [(''theme'', \<lparr> from_key = ''theme'', default_opt = None \<rparr>),
              (''size'', \<lparr> from_key = ''size'', default_opt = Some (DVal (VInt 3)) \<rparr>),
              (''gone'', \<lparr> from_key = ''gone'', default_opt = None \<rparr>)])
       (Inst 2 None (Some (Inst 1 (Some [''theme'' \<mapsto> VStr ''dark''])
          (Some (Inst 0 (Some [''theme'' \<mapsto> VStr ''light'']) None))))) = Some (res, warns) \<and>
     res ''theme'' = Some (VStr ''dark'') \<and> res ''size'' = Some (VInt 3) \<and>
     res ''gone'' = None \<and> not_found_msg ''gone'' \<in> set warns"
proof -
  let ?gp = "Inst 0 (Some [''theme'' \<mapsto> VStr ''light'']) None"
  let ?pa = "Inst 1 (Some [''theme'' \<mapsto> VStr ''dark'']) (Some ?gp)"
  let ?vm = "Inst 2 None (Some ?pa)"
  let ?inj = "[(''theme'', \<lparr> from_key = ''theme'', default_opt = None \<rparr>),
              (''size'', \<lparr> from_key = ''size'', default_opt = Some (DVal (VInt 3)) \<rparr>),
              (''gone'', \<lparr> from_key = ''gone'', default_opt = None \<rparr>)]"
  have ch: "chain ?vm = [?vm] @ ?pa # [?gp]" by simp
  have np: "\<forall>x \<in> set [?vm]. \<not> provides x ''theme''" by (simp add: provides_def)
  have pp: "provides ?pa ''theme''" by (simp add: provides_def)
  have pv: "provided_value ?pa ''theme'' = VStr ''dark''" by (simp add: provided_value_def)
  have none: "\<forall>x \<in> set (chain ?vm). \<not> provides x k" if "k \<noteq> ''theme''" for k
    using that by (simp add: provides_def)
  have d1: "map_of ?inj ''theme'' = Some \<lparr> from_key = ''theme'', default_opt = None \<rparr>" by simp
  have d2: "map_of ?inj ''size'' = Some \<lparr> from_key = ''size'', default_opt = Some (DVal (VInt 3)) \<rparr>" by simp
  have d3: "map_of ?inj ''gone'' = Some \<lparr> from_key = ''gone'', default_opt = None \<rparr>" by simp
  have n1: "''theme'' \<noteq> ''__ob__''" and n2: "''size'' \<noteq> ''__ob__''" and n3: "''gone'' \<noteq> ''__ob__''"
    by simp_all
  from resolveInject_key[OF d1 n1, of False ?vm] obtain res warns where
    r: "resolveInject False (Some ?inj) ?vm = Some (res, warns)" and
    t0: "\<forall>pre src rest. chain ?vm = pre @ src # rest \<and> (\<forall>x \<in> set pre. \<not> provides x ''theme'')
           \<and> provides src ''theme'' \<longrightarrow> res ''theme'' = Some (provided_value src ''theme'')"
    by (auto simp del: chain.simps)
  have t: "res ''theme'' = Some (VStr ''dark'')"
    using t0 ch np pp pv by metis
  from resolveInject_key[OF d2 n2, of False ?vm] r none[of "''size''"]
  have s: "res ''size'' = Some (VInt 3)"
    by (auto simp del: chain.simps)
  from resolveInject_key[OF d3 n3, of False ?vm] r none[of "''gone''"]
  have g: "res ''gone'' = None \<and> not_found_msg ''gone'' \<in> set warns"
    by (auto simp del: chain.simps)
  from r t s g show ?thesis by blast
qed

subsection \<open>What an emission invokes\<close>

lemmas ev_defs = on_def once_def initEvents_def hookRE_def off_one_def off_all_def cb_matches_def
  registered_def Let_def

lemma deeper_refl: "trace s' = trace s \<Longrightarrow> deeper d s s'"
  by (simp add: deeper_def)

lemma deeper_trans: "deeper d s s1 \<Longrightarrow> deeper d s1 s2 \<Longrightarrow> deeper d s s2"
  by (auto simp: deeper_def)

lemma deeper_mono: "deeper (Suc d) s s' \<Longrightarrow> deeper d s s'"
  by (fastforce simp: deeper_def)

lemma trace_on [simp]: "trace (on ev fn s) = trace s"
  by (simp add: on_def Let_def split: option.splits)

lemma trace_once [simp]: "trace (once ev fn s) = trace s"
  by (simp add: once_def)

lemma trace_off_all [simp]: "trace (off_all s) = trace s"
  by (simp add: off_all_def)

lemma trace_off_one [simp]: "trace (off_one ev fn s) = trace s"
  by (simp add: off_one_def split: option.splits)

lemma deeper_ops [simp]:
  "deeper d (on ev fn s) s' = deeper d s s'"
  "deeper d (once ev fn s) s' = deeper d s s'"
  "deeper d (off_all s) s' = deeper d s s'"
  "deeper d (off_one ev fo s) s' = deeper d s s'"
  "deeper d s (off_one ev fo s') = deeper d s s'"
  "deeper d (s\<lparr> calls := cs \<rparr>) s' = deeper d s s'"
  "deeper d s (s'\<lparr> reported := rs \<rparr>) = deeper d s s'"
  by (simp_all add: deeper_def)

lemma deeper_log: "deeper (Suc d) (s\<lparr> trace := trace s @ [(d, c, args)] \<rparr>) s' \<Longrightarrow> deeper d s s'"
  by (fastforce simp: deeper_def)

lemma run_deeper:
  shows "exec n p d ss s = Some r \<Longrightarrow> deeper d s (final r)"
    and "apply_cb n p d c args s = Some r' \<Longrightarrow> deeper d s (final r')"
    and "invokeWithErrorHandling n p d co args info s = Some s' \<Longrightarrow> deeper d s s'"
    and "emit_copy n p d cbs args info s = Some s' \<Longrightarrow> deeper d s s'"
    and "emit_live n p d a i l args info s = Some s' \<Longrightarrow> deeper d s s'"
    and "emit n p d ev args s = Some s' \<Longrightarrow> deeper d s s'"
proof (induction n arbitrary: d ss c co cbs a i l ev args info s r r' s' and d ss c co cbs a i l ev args info s r r' s' and d ss c co cbs a i l ev args info s r r' s'
         and d ss c co cbs a i l ev args info s r r' s' and d ss c co cbs a i l ev args info s r r' s' and d ss c co cbs a i l ev args info s r r' s')
  case 0
  { case 1 then show ?case by simp }
  { case 2 then show ?case by simp }
  { case 3 then show ?case by simp }
  { case 4 then show ?case by simp }
  { case 5 then show ?case by simp }
  { case 6 then show ?case by simp }
next
  case (Suc n)
  {
    case 1
    then show ?case
      by (auto split: list.splits stmt.splits option.splits
               intro: deeper_refl deeper_trans dest!: Suc.IH(1,6))
  next
    case 2
    then show ?case
      by (auto simp: Let_def split: cb.splits option.splits outcome.splits if_splits
               dest!: Suc.IH(1,2))
  next
    case 3
    then show ?case
      by (auto split: option.splits outcome.splits dest!: Suc.IH(2) deeper_log intro: deeper_refl)
  next
    case 4
    then show ?case
      by (auto split: list.splits option.splits intro: deeper_refl deeper_trans dest!: Suc.IH(3,4))
  next
    case 5
    then show ?case
      by (auto split: option.splits if_splits intro: deeper_refl deeper_trans dest!: Suc.IH(3,5))
  next
    case 6
    then show ?case
      by (auto simp: Let_def split: option.splits if_splits intro: deeper_refl dest!: Suc.IH(4,5))
  }
qed


lemma invoke_top:
  assumes "invokeWithErrorHandling n p d (Some c) args info s = Some s'"
  shows "\<exists>ext. trace s' = trace s @ (d, c, args) # ext \<and> (\<forall>e \<in> set ext. Suc d \<le> fst e)"
proof (cases n)
  case 0
  with assms show ?thesis by simp
next
  case (Suc m)
  with assms obtain r where r: "apply_cb m p (Suc d) c args (s\<lparr> trace := trace s @ [(d, c, args)] \<rparr>) = Some r"
    and s': "trace s' = trace (final r)"
    by (auto split: option.splits outcome.splits)
  from run_deeper(2)[OF r] s' show ?thesis
    by (auto simp: deeper_def)
qed

lemma emit_copy_top:
  "emit_copy n p d cbs args info s = Some s' \<Longrightarrow>
   \<exists>ext. trace s' = trace s @ ext \<and> filter (\<lambda>e. fst e = d) ext = map (\<lambda>c. (d, c, args)) cbs"
proof (induction n arbitrary: cbs s)
  case 0
  then show ?case by simp
next
  case (Suc n)
  show ?case
  proof (cases cbs)
    case Nil
    with Suc.prems show ?thesis by simp
  next
    case (Cons c rest)
    with Suc.prems obtain s1 where i: "invokeWithErrorHandling n p d (Some c) args info s = Some s1"
      and r: "emit_copy n p d rest args info s1 = Some s'"
      by (auto split: option.splits)
    from invoke_top[OF i] obtain e1 where e1: "trace s1 = trace s @ (d, c, args) # e1"
      "\<forall>e \<in> set e1. Suc d \<le> fst e" by blast
    from Suc.IH[OF r] obtain e2 where e2: "trace s' = trace s1 @ e2"
      "filter (\<lambda>e. fst e = d) e2 = map (\<lambda>c. (d, c, args)) rest" by blast
    have "filter (\<lambda>e. fst e = d) e1 = []" using e1(2) by (auto simp: filter_empty_conv)
    with e1 e2 Cons show ?thesis by simp
  qed
qed

lemma emit_live_top:
  assumes "emit_live n p d a 0 (length (arrays s a)) args info s = Some s'"
    and "length (arrays s a) \<le> 1"
  shows "\<exists>ext. trace s' = trace s @ ext \<and>
           filter (\<lambda>e. fst e = d) ext = map (\<lambda>c. (d, c, args)) (arrays s a)"
proof (cases "arrays s a")
  case Nil
  with assms(1) have "s' = s" by (cases n) auto
  with Nil show ?thesis by simp
next
  case (Cons c rest)
  with assms(2) have rest: "rest = []" by simp
  from assms(1) Cons rest obtain m where n: "n = Suc m" by (cases n) auto
  from assms(1) Cons rest n obtain s1 where i: "invokeWithErrorHandling m p d (Some c) args info s = Some s1"
    and l: "emit_live m p d a (Suc 0) (Suc 0) args info s1 = Some s'"
    by (auto split: option.splits)
  from l have "s' = s1" by (cases m) auto
  with invoke_top[OF i] obtain e1 where e1: "trace s' = trace s @ (d, c, args) # e1"
      "\<forall>e \<in> set e1. Suc d \<le> fst e" by blast
  have "filter (\<lambda>e. fst e = d) e1 = []" using e1(2) by (auto simp: filter_empty_conv)
  with e1 Cons rest show ?thesis by simp
qed

text \<open>A larger bound does not change a run that ended.\<close>

lemma run_mono_Suc:
  shows "exec n p d ss s = Some r \<Longrightarrow> exec (Suc n) p d ss s = Some r"
    and "apply_cb n p d c args s = Some r' \<Longrightarrow> apply_cb (Suc n) p d c args s = Some r'"
    and "invokeWithErrorHandling n p d co args info s = Some s' \<Longrightarrow>
           invokeWithErrorHandling (Suc n) p d co args info s = Some s'"
    and "emit_copy n p d cbs args info s = Some s' \<Longrightarrow> emit_copy (Suc n) p d cbs args info s = Some s'"
    and "emit_live n p d a i l args info s = Some s' \<Longrightarrow> emit_live (Suc n) p d a i l args info s = Some s'"
    and "emit n p d ev args s = Some s' \<Longrightarrow> emit (Suc n) p d ev args s = Some s'"
proof (induction n arbitrary: d ss c co cbs a i l ev args info s r r' s' and d ss c co cbs a i l ev args info s r r' s' and d ss c co cbs a i l ev args info s r r' s'
         and d ss c co cbs a i l ev args info s r r' s' and d ss c co cbs a i l ev args info s r r' s' and d ss c co cbs a i l ev args info s r r' s')
  case 0
  { case 1 then show ?case by simp }
  { case 2 then show ?case by simp }
  { case 3 then show ?case by simp }
  { case 4 then show ?case by simp }
  { case 5 then show ?case by simp }
  { case 6 then show ?case by simp }
next
  case (Suc n)
  {
    case 1
    then show ?case
      apply (subst exec.simps(2))
      apply (subst (asm) exec.simps(2))
      by (auto simp del: exec.simps(2) emit.simps(2) split: list.splits stmt.splits option.splits
               dest!: Suc.IH(1,6))
  next
    case 2
    then show ?case
      apply (subst apply_cb.simps(2))
      apply (subst (asm) apply_cb.simps(2))
      by (auto simp del: exec.simps(2) apply_cb.simps(2) simp: Let_def
               split: cb.splits option.splits outcome.splits
               dest!: Suc.IH(1,2))
  next
    case 3
    then show ?case
      apply (subst invokeWithErrorHandling.simps(2))
      apply (subst (asm) invokeWithErrorHandling.simps(2))
      by (auto simp del: apply_cb.simps(2) invokeWithErrorHandling.simps(2)
               split: option.splits outcome.splits
               dest!: Suc.IH(2))
  next
    case 4
    then show ?case
      apply (subst emit_copy.simps(2))
      apply (subst (asm) emit_copy.simps(2))
      by (auto simp del: emit_copy.simps(2) invokeWithErrorHandling.simps(2)
               split: list.splits option.splits
               dest!: Suc.IH(3,4))
  next
    case 5
    then show ?case
      apply (subst emit_live.simps(2))
      apply (subst (asm) emit_live.simps(2))
      by (auto simp del: emit_live.simps(2) invokeWithErrorHandling.simps(2)
               split: option.splits if_splits
               dest!: Suc.IH(3,5))
  next
    case 6
    then show ?case
      apply (subst emit.simps(2))
      apply (subst (asm) emit.simps(2))
      by (auto simp del: emit.simps(2) emit_copy.simps(2) emit_live.simps(2) simp: Let_def
               split: option.splits if_splits
               dest!: Suc.IH(4,5))
  }
qed


lemma run_mono:
  assumes "n \<le> m"
  shows "exec n p d ss s = Some r \<Longrightarrow> exec m p d ss s = Some r"
    and "apply_cb n p d c args s = Some r' \<Longrightarrow> apply_cb m p d c args s = Some r'"
    and "invokeWithErrorHandling n p d co args info s = Some s' \<Longrightarrow>
           invokeWithErrorHandling m p d co args info s = Some s'"
    and "emit_copy n p d cbs args info s = Some s' \<Longrightarrow> emit_copy m p d cbs args info s = Some s'"
    and "emit_live n p d a i l args info s = Some s' \<Longrightarrow> emit_live m p d a i l args info s = Some s'"
    and "emit n p d ev args s = Some s' \<Longrightarrow> emit m p d ev args s = Some s'"
  using assms
  by (induction rule: dec_induct) (blast intro: run_mono_Suc)+

lemma exec_step:
  "\<not> emits st \<Longrightarrow> st \<noteq> SThrow \<Longrightarrow>
   exec (Suc n) p d (st # rest) s = exec n p d rest (bus_step st s)"
  by (cases st) auto

text \<open>Calls of functions that do not emit end, whatever the state.\<close>

lemma exec_quiet_total:
  "\<forall>st \<in> set ss. \<not> emits st \<Longrightarrow> \<exists>r. exec (Suc (length ss)) p d ss s = Some r"
proof (induction ss arbitrary: s)
  case Nil
  then show ?case by simp
next
  case (Cons st rest)
  show ?case
  proof (cases "st = SThrow")
    case True
    then show ?thesis by simp
  next
    case False
    with Cons.prems have ne: "\<not> emits st" "st \<noteq> SThrow" by auto
    have "exec (Suc (length (st # rest))) p d (st # rest) s = exec (Suc (length rest)) p d rest (bus_step st s)"
      using exec_step[OF ne, of "Suc (length rest)" p d rest s] by simp
    with Cons.IH[of "bus_step st s"] Cons.prems show ?thesis by simp
  qed
qed

lemma apply_quiet_total:
  "quiet p (base c) \<Longrightarrow> \<exists>n r. apply_cb n p d c args s = Some r"
proof (induction c arbitrary: s)
  case (Fn g)
  let ?s1 = "s\<lparr> calls := (calls s)(g := Suc (calls s g)) \<rparr>"
  let ?ss = "fst (p g (calls s g))"
  from Fn have "\<forall>st \<in> set ?ss. \<not> emits st" by (simp add: quiet_def)
  from exec_quiet_total[OF this, of p d ?s1] obtain r0 where
    "exec (Suc (length ?ss)) p d ?ss ?s1 = Some r0" by blast
  then have "\<exists>r. apply_cb (Suc (Suc (length ?ss))) p d (Fn g) args s = Some r"
    by (cases r0) (simp_all add: Let_def del: exec.simps(2))
  then show ?case by blast
next
  case (OnceCb w e c')
  from OnceCb.IH[of "off_one e (Some (OnceCb w e c')) s"] OnceCb.prems
  obtain n r0 where "apply_cb n p d c' args (off_one e (Some (OnceCb w e c')) s) = Some r0" by auto
  then have "\<exists>r. apply_cb (Suc n) p d (OnceCb w e c') args s = Some r"
    by (cases r0) (simp_all del: apply_cb.simps(2) add: apply_cb.simps(2)[of n p d "OnceCb w e c'"])
  then show ?case by blast
next
  case (OnceHandler w e c')
  from OnceHandler.IH[of s] OnceHandler.prems
  obtain n r0 where "apply_cb n p d c' args s = Some r0" by auto
  then have "\<exists>r. apply_cb (Suc n) p d (OnceHandler w e c') args s = Some r"
    by (cases r0) (simp_all del: apply_cb.simps(2) add: apply_cb.simps(2)[of n p d "OnceHandler w e c'"])
  then show ?case by blast
qed

lemma invoke_quiet_total:
  assumes "quiet p (base c)"
  shows "\<exists>n s'. invokeWithErrorHandling n p d (Some c) args info s = Some s'"
proof -
  from apply_quiet_total[OF assms, of "Suc d" args "s\<lparr> trace := trace s @ [(d, c, args)] \<rparr>"]
  obtain n r where "apply_cb n p (Suc d) c args (s\<lparr> trace := trace s @ [(d, c, args)] \<rparr>) = Some r" by blast
  then have "\<exists>s'. invokeWithErrorHandling (Suc n) p d (Some c) args info s = Some s'"
    by (cases r) (simp_all del: apply_cb.simps(2))
  then show ?thesis by blast
qed

lemma emit_copy_quiet_total:
  "\<forall>c \<in> set cbs. quiet p (base c) \<Longrightarrow> \<exists>n s'. emit_copy n p d cbs args info s = Some s'"
proof (induction cbs arbitrary: s)
  case Nil
  have "emit_copy (Suc 0) p d [] args info s = Some s" by simp
  then show ?case by blast
next
  case (Cons c rest)
  from invoke_quiet_total[of p c d args info s] Cons.prems
  obtain n1 s1 where i: "invokeWithErrorHandling n1 p d (Some c) args info s = Some s1" by auto
  from Cons.IH[of s1] Cons.prems
  obtain n2 s2 where r: "emit_copy n2 p d rest args info s1 = Some s2" by auto
  let ?m = "max n1 n2"
  from run_mono(3)[OF _ i, of ?m] have i': "invokeWithErrorHandling ?m p d (Some c) args info s = Some s1" by simp
  from run_mono(4)[OF _ r, of ?m] have r': "emit_copy ?m p d rest args info s1 = Some s2" by simp
  have "emit_copy (Suc ?m) p d (c # rest) args info s = Some s2"
    using i' r' by (simp del: invokeWithErrorHandling.simps(2) emit_copy.simps(2)
                        add: emit_copy.simps(2)[of ?m])
  then show ?case by blast
qed

lemma emit_quiet_total:
  assumes "\<forall>c \<in> set (registered s ev). quiet p (base c)"
  shows "\<exists>n s'. emit n p d ev args s = Some s'"
proof (cases "events s ev")
  case None
  then have "emit (Suc 0) p d ev args s = Some s" by simp
  then show ?thesis by blast
next
  case (Some a)
  let ?info = "''event handler for \"'' @ ev @ ''\"''"
  from assms Some have q: "\<forall>c \<in> set (arrays s a). quiet p (base c)" by (simp add: registered_def)
  show ?thesis
  proof (cases "1 < length (arrays s a)")
    case True
    from emit_copy_quiet_total[OF q, of d args ?info s]
    obtain n s' where "emit_copy n p d (arrays s a) args ?info s = Some s'" by blast
    with Some True have "emit (Suc n) p d ev args s = Some s'"
      by (simp add: Let_def)
    then show ?thesis by blast
  next
    case False
    show ?thesis
    proof (cases "arrays s a")
      case Nil
      with Some have "emit (Suc (Suc 0)) p d ev args s = Some s" by (simp add: Let_def)
      then show ?thesis by blast
    next
      case (Cons c rest)
      with False have rest: "rest = []" by simp
      from invoke_quiet_total[of p c d args ?info s] q Cons
      obtain n s1 where i: "invokeWithErrorHandling n p d (Some c) args ?info s = Some s1" by auto
      from run_mono(3)[OF _ i, of "Suc n"]
      have i': "invokeWithErrorHandling (Suc n) p d (Some c) args ?info s = Some s1" by simp
      have "emit_live (Suc (Suc n)) p d a 0 (Suc 0) args ?info s = Some s1"
        using i' Cons
        by (simp del: invokeWithErrorHandling.simps(2) emit_live.simps(2)
                 add: emit_live.simps(2)[of "Suc n"] emit_live.simps(2)[of n])
      with Some Cons rest have "emit (Suc (Suc (Suc n))) p d ev args s = Some s1"
        by (simp add: Let_def del: emit_live.simps(2))
      then show ?thesis by blast
    qed
  qed
qed

lemma emit_quiet_returns:
  assumes "\<forall>c \<in> set (registered s ev). quiet p (base c)"
  shows "\<exists>N s'. \<forall>n \<ge> N. emit n p d ev args s = Some s'"
proof -
  from emit_quiet_total[OF assms] obtain N s' where "emit N p d ev args s = Some s'" by blast
  then have "\<forall>n \<ge> N. emit n p d ev args s = Some s'" by (blast intro: run_mono(6))
  then show ?thesis by blast
qed


text \<open>Calls of functions that do not emit leave the trace as it is.\<close>

lemma trace_bus_step [simp]: "trace (bus_step st s) = trace s"
  by (cases st) auto

lemma exec_quiet_trace:
  "exec n p d ss s = Some r \<Longrightarrow> \<forall>st \<in> set ss. \<not> emits st \<Longrightarrow> trace (final r) = trace s"
proof (induction n arbitrary: ss s)
  case 0
  then show ?case by simp
next
  case (Suc n)
  show ?case
  proof (cases ss)
    case Nil
    with Suc.prems show ?thesis by auto
  next
    case (Cons st rest)
    show ?thesis
    proof (cases "st = SThrow")
      case True
      with Suc.prems Cons show ?thesis by auto
    next
      case False
      with Suc.prems(2) Cons have ne: "\<not> emits st" "st \<noteq> SThrow" by auto
      have x: "exec n p d rest (bus_step st s) = Some r"
        using Suc.prems(1) unfolding Cons exec_step[OF ne] .
      from Suc.IH[OF x] Suc.prems(2) Cons show ?thesis by simp
    qed
  qed
qed

lemma apply_quiet_trace:
  "apply_cb n p d c args s = Some r \<Longrightarrow> quiet p (base c) \<Longrightarrow> trace (final r) = trace s"
proof (induction n arbitrary: c s r)
  case 0
  then show ?case by simp
next
  case (Suc n)
  show ?case
  proof (cases c)
    case (Fn g)
    let ?s1 = "s\<lparr> calls := (calls s)(g := Suc (calls s g)) \<rparr>"
    from Suc.prems(1) Fn obtain r0 where x: "exec n p d (fst (p g (calls s g))) ?s1 = Some r0"
      and fr: "final r = final r0"
      by (auto simp: Let_def split: option.splits outcome.splits)
    have "\<forall>st \<in> set (fst (p g (calls s g))). \<not> emits st"
      using Suc.prems(2) Fn by (simp add: quiet_def)
    from exec_quiet_trace[OF x this] fr show ?thesis by simp
  next
    case (OnceCb w e c')
    with Suc.prems(1) obtain r0 where x: "apply_cb n p d c' args (off_one e (Some c) s) = Some r0"
      and fr: "final r = final r0"
      by (auto split: option.splits outcome.splits)
    from Suc.IH[OF x] Suc.prems(2) OnceCb fr show ?thesis by simp
  next
    case (OnceHandler w e c')
    with Suc.prems(1) obtain r0 where x: "apply_cb n p d c' args s = Some r0"
      and fr: "final r = final r0 \<or> final r = off_one e (Some c) (final r0)"
      by (auto split: option.splits outcome.splits if_splits)
    from Suc.IH[OF x] Suc.prems(2) OnceHandler have "trace (final r0) = trace s" by simp
    with fr show ?thesis by auto
  qed
qed

lemma invoke_quiet_trace:
  assumes "invokeWithErrorHandling n p d (Some c) args info s = Some s'" and "quiet p (base c)"
  shows "trace s' = trace s @ [(d, c, args)]"
proof -
  from assms(1) obtain m where n: "n = Suc m" by (cases n) auto
  with assms(1) obtain r0 where x: "apply_cb m p (Suc d) c args (s\<lparr> trace := trace s @ [(d, c, args)] \<rparr>) = Some r0"
    and fr: "s' = final r0 \<or> s' = (final r0)\<lparr> reported := reported (final r0) @ [info] \<rparr>"
    by (auto split: option.splits outcome.splits)
  from apply_quiet_trace[OF x assms(2)] fr show ?thesis by auto
qed

lemma emit_copy_quiet_trace:
  "emit_copy n p d cbs args info s = Some s' \<Longrightarrow> \<forall>c \<in> set cbs. quiet p (base c) \<Longrightarrow>
   trace s' = trace s @ map (\<lambda>c. (d, c, args)) cbs"
proof (induction n arbitrary: cbs s)
  case 0
  then show ?case by simp
next
  case (Suc n)
  show ?case
  proof (cases cbs)
    case Nil
    with Suc.prems show ?thesis by simp
  next
    case (Cons c rest)
    with Suc.prems(1) obtain s1 where i: "invokeWithErrorHandling n p d (Some c) args info s = Some s1"
      and r: "emit_copy n p d rest args info s1 = Some s'"
      by (auto split: option.splits)
    from invoke_quiet_trace[OF i] Suc.IH[OF r] Suc.prems(2) Cons show ?thesis by simp
  qed
qed

lemma emit_quiet_trace:
  assumes "emit n p d ev args s = Some s'" and "\<forall>c \<in> set (registered s ev). quiet p (base c)"
  shows "trace s' = trace s @ map (\<lambda>c. (d, c, args)) (registered s ev)"
proof -
  from assms(1) obtain m where n: "n = Suc m" by (cases n) auto
  show ?thesis
  proof (cases "events s ev")
    case None
    with assms(1) n show ?thesis by (simp add: registered_def)
  next
    case (Some a)
    let ?info = "''event handler for \"'' @ ev @ ''\"''"
    from assms(2) Some have q: "\<forall>c \<in> set (arrays s a). quiet p (base c)" by (simp add: registered_def)
    show ?thesis
    proof (cases "1 < length (arrays s a)")
      case True
      with assms(1) n Some have "emit_copy m p d (arrays s a) args ?info s = Some s'"
        by (simp add: Let_def)
      from emit_copy_quiet_trace[OF this q] Some show ?thesis by (simp add: registered_def)
    next
      case False
      with assms(1) n Some have l: "emit_live m p d a 0 (length (arrays s a)) args ?info s = Some s'"
        by (simp add: Let_def)
      show ?thesis
      proof (cases "arrays s a")
        case Nil
        with l have "s' = s" by (cases m) auto
        with Nil Some show ?thesis by (simp add: registered_def)
      next
        case (Cons c rest)
        with False have rest: "rest = []" by simp
        from l Cons rest obtain m1 where m: "m = Suc m1" by (cases m) auto
        from l Cons rest m obtain s1 where i: "invokeWithErrorHandling m1 p d (Some c) args ?info s = Some s1"
          and x: "emit_live m1 p d a (Suc 0) (Suc 0) args ?info s1 = Some s'"
          by (auto split: option.splits)
        from x have "s' = s1" by (cases m1) auto
        with invoke_quiet_trace[OF i] q Cons rest Some show ?thesis by (simp add: registered_def)
      qed
    qed
  qed
qed

text \<open>
  C3. Whatever the handlers do, an emission that returns has invoked, at its own
  nesting depth, exactly the callbacks that were registered for the event when
  \<open>$emit\<close> was called, in registration order, each with the arguments of the
  emission. Handlers that subscribe, unsubscribe or clear subscriptions while it
  runs do not change this, and neither does a handler that throws: the trace
  grows by these invocations, interleaved only with the deeper ones that the
  handlers cause themselves. (The list is copied when it has more than one entry;
  a shorter one is read in place, once, before any handler runs.)

  And the emission does return when the registered handlers do not emit
  themselves, whatever they subscribe, unsubscribe or throw: from some bound on
  the number of nested steps onwards the run ends, and then the trace has grown
  by exactly the invocations of the callbacks registered at the start, one after
  the other. So a handler that throws ends neither the emission nor the
  invocation of the handlers after it.
\<close>

theorem emit_invokes_registered:
  "(\<forall>n s'. emit n p d ev args s = Some s' \<longrightarrow>
      (\<exists>ext. trace s' = trace s @ ext \<and>
             filter (\<lambda>e. fst e = d) ext = map (\<lambda>c. (d, c, args)) (registered s ev))) \<and>
   ((\<forall>c \<in> set (registered s ev). quiet p (base c)) \<longrightarrow>
      (\<exists>N. \<forall>n \<ge> N. \<exists>s'. emit n p d ev args s = Some s' \<and>
             trace s' = trace s @ map (\<lambda>c. (d, c, args)) (registered s ev)))"
proof (intro conjI allI impI)
  fix n s'
  assume e: "emit n p d ev args s = Some s'"
  show "\<exists>ext. trace s' = trace s @ ext \<and>
           filter (\<lambda>e. fst e = d) ext = map (\<lambda>c. (d, c, args)) (registered s ev)"
  proof (cases n)
    case 0
    with e show ?thesis by simp
  next
    case (Suc m)
    show ?thesis
    proof (cases "events s ev")
      case None
      with e Suc show ?thesis by (simp add: registered_def)
    next
      case (Some a)
      show ?thesis
      proof (cases "1 < length (arrays s a)")
        case True
        with e Suc Some have "emit_copy m p d (arrays s a) args (''event handler for \"'' @ ev @ ''\"'') s = Some s'"
          by (simp add: Let_def)
        from emit_copy_top[OF this] Some show ?thesis by (simp add: registered_def)
      next
        case False
        with e Suc Some have "emit_live m p d a 0 (length (arrays s a)) args (''event handler for \"'' @ ev @ ''\"'') s = Some s'"
          by (simp add: Let_def)
        from emit_live_top[OF this] False Some show ?thesis by (simp add: registered_def)
      qed
    qed
  qed
next
  assume q: "\<forall>c \<in> set (registered s ev). quiet p (base c)"
  from emit_quiet_returns[OF q, of d args] obtain N s' where
    r: "\<forall>n \<ge> N. emit n p d ev args s = Some s'" by blast
  then have "emit N p d ev args s = Some s'" by simp
  from emit_quiet_trace[OF this q] r
  show "\<exists>N. \<forall>n \<ge> N. \<exists>s'. emit n p d ev args s = Some s' \<and>
             trace s' = trace s @ map (\<lambda>c. (d, c, args)) (registered s ev)"
    by blast
qed

text \<open>
  Three handlers for \<open>e\<close>: the first unsubscribes the second, subscribes a fourth,
  and throws; the second clears all subscriptions. All three are invoked, the
  fourth is not, and the error of the first is reported. In the first run the
  first handler also emits \<open>x\<close> before it throws.
\<close>

theorem emit_invokes_registered_witness:
  "(\<exists>s'. emit 20 prog_meddling 0 ''e'' [VInt 5]
           (on ''x'' (Fn 5) (on ''e'' (Fn 3) (on ''e'' (Fn 2) (on ''e'' (Fn 1) initEvents)))) = Some s' \<and>
         filter (\<lambda>e. fst e = 0) (trace s') = [(0, Fn 1, [VInt 5]), (0, Fn 2, [VInt 5]), (0, Fn 3, [VInt 5])] \<and>
         registered s' ''e'' = [] \<and> reported s' = [''event handler for \"e\"'']) \<and>
   (\<exists>s'. emit 20 prog_unsub_throw 0 ''e'' [VInt 5]
           (on ''e'' (Fn 3) (on ''e'' (Fn 2) (on ''e'' (Fn 1) initEvents))) = Some s' \<and>
         trace s' = [(0, Fn 1, [VInt 5]), (0, Fn 2, [VInt 5]), (0, Fn 3, [VInt 5])] \<and>
         registered s' ''e'' = [] \<and> reported s' = [''event handler for \"e\"''])"
proof -
  let ?s = "on ''x'' (Fn 5) (on ''e'' (Fn 3) (on ''e'' (Fn 2) (on ''e'' (Fn 1) initEvents)))"
  have reg: "registered ?s ''e'' = [Fn 1, Fn 2, Fn 3]" and tr: "trace ?s = []"
    by (simp_all add: ev_defs)
  have "map_option (\<lambda>s. (registered s ''e'', reported s)) (emit 20 prog_meddling 0 ''e'' [VInt 5] ?s)
          = Some ([], [''event handler for \"e\"''])"
    by (simp add: prog_meddling_def ev_defs numeral_eq_Suc)
  then obtain s' where r: "emit 20 prog_meddling 0 ''e'' [VInt 5] ?s = Some s'"
    and e: "registered s' ''e'' = []" "reported s' = [''event handler for \"e\"'']"
    by auto
  from emit_invokes_registered[of prog_meddling 0 "''e''" "[VInt 5]" ?s] r reg tr
  have "filter (\<lambda>e. fst e = 0) (trace s') = [(0, Fn 1, [VInt 5]), (0, Fn 2, [VInt 5]), (0, Fn 3, [VInt 5])]"
    by auto
  with r e have 1: "\<exists>s'. emit 20 prog_meddling 0 ''e'' [VInt 5] ?s = Some s' \<and>
         filter (\<lambda>e. fst e = 0) (trace s') = [(0, Fn 1, [VInt 5]), (0, Fn 2, [VInt 5]), (0, Fn 3, [VInt 5])] \<and>
         registered s' ''e'' = [] \<and> reported s' = [''event handler for \"e\"'']"
    by blast
  let ?t = "on ''e'' (Fn 3) (on ''e'' (Fn 2) (on ''e'' (Fn 1) initEvents))"
  have reg2: "registered ?t ''e'' = [Fn 1, Fn 2, Fn 3]" and tr2: "trace ?t = []"
    by (simp_all add: ev_defs)
  have q: "\<forall>c \<in> set (registered ?t ''e''). quiet prog_unsub_throw (base c)"
    unfolding reg2 by (simp add: quiet_def prog_unsub_throw_def)
  have "map_option (\<lambda>s. (registered s ''e'', reported s)) (emit 20 prog_unsub_throw 0 ''e'' [VInt 5] ?t)
          = Some ([], [''event handler for \"e\"''])"
    by (simp add: prog_unsub_throw_def ev_defs numeral_eq_Suc)
  then obtain s2 where r2: "emit 20 prog_unsub_throw 0 ''e'' [VInt 5] ?t = Some s2"
    and e2: "registered s2 ''e'' = []" "reported s2 = [''event handler for \"e\"'']"
    by auto
  from emit_invokes_registered[of prog_unsub_throw 0 "''e''" "[VInt 5]" ?t] q
  obtain N where N: "\<forall>n \<ge> N. \<exists>s'. emit n prog_unsub_throw 0 ''e'' [VInt 5] ?t = Some s' \<and>
             trace s' = trace ?t @ map (\<lambda>c. (0, c, [VInt 5])) (registered ?t ''e'')"
    by blast
  from run_mono(6)[OF _ r2, of "max N 20"]
  have "emit (max N 20) prog_unsub_throw 0 ''e'' [VInt 5] ?t = Some s2" by simp
  moreover from N obtain s3 where "emit (max N 20) prog_unsub_throw 0 ''e'' [VInt 5] ?t = Some s3"
    "trace s3 = trace ?t @ map (\<lambda>c. (0, c, [VInt 5])) (registered ?t ''e'')"
    by (meson max.cobounded1)
  ultimately have "trace s2 = trace ?t @ map (\<lambda>c. (0, c, [VInt 5])) (registered ?t ''e'')" by simp
  then have "trace s2 = [(0, Fn 1, [VInt 5]), (0, Fn 2, [VInt 5]), (0, Fn 3, [VInt 5])]"
    unfolding reg2 tr2 by simp
  with r2 e2 have 2: "\<exists>s'. emit 20 prog_unsub_throw 0 ''e'' [VInt 5] ?t = Some s' \<and>
         trace s' = [(0, Fn 1, [VInt 5]), (0, Fn 2, [VInt 5]), (0, Fn 3, [VInt 5])] \<and>
         registered s' ''e'' = [] \<and> reported s' = [''event handler for \"e\"'']"
    by blast
  from 1 2 show ?thesis by blast
qed


subsection \<open>Handlers subscribed with once\<close>

lemma wf_on: "wf_bus s \<Longrightarrow> wf_bus (on e c s)"
  by (auto simp: wf_bus_def on_def Let_def split: option.splits if_splits) fastforce+

lemma registered_on:
  "wf_bus s \<Longrightarrow> registered (on e c s) e' = (if e' = e then registered s e @ [c] else registered s e')"
  by (auto simp: wf_bus_def registered_def on_def Let_def split: option.splits)

lemma wf_once: "wf_bus s \<Longrightarrow> wf_bus (once e c s)"
  unfolding once_def by (rule wf_on) (simp add: wf_bus_def)

lemma registered_once:
  "wf_bus s \<Longrightarrow> registered (once e c s) e' =
     (if e' = e then registered s e @ [OnceCb (nextFn s) e c] else registered s e')"
  unfolding once_def
  by (subst registered_on) (auto simp: wf_bus_def registered_def split: option.splits)

lemma wf_off_all: "wf_bus (off_all s)"
  by (simp add: wf_bus_def off_all_def)

lemma registered_off_all: "registered (off_all s) e = []"
  by (simp add: registered_def off_all_def)

lemma wf_off_one: "wf_bus s \<Longrightarrow> wf_bus (off_one e fo s)"
  by (auto simp: wf_bus_def off_one_def split: option.splits if_splits)

lemma registered_off_one:
  "wf_bus s \<Longrightarrow> registered (off_one e fo s) e' =
     (if e' = e
      then (case fo of None \<Rightarrow> [] | Some fn \<Rightarrow> off_loop (length (registered s e)) fn (registered s e))
      else registered s e')"
  by (auto simp: wf_bus_def registered_def off_one_def split: option.splits)

lemma count_list_remove_nth:
  "count_list (take i xs @ drop (Suc i) xs) x \<le> count_list xs x"
proof (cases "i < length xs")
  case True
  have "count_list xs x = count_list (take i xs @ xs ! i # drop (Suc i) xs) x"
    using id_take_nth_drop[OF True] by simp
  then show ?thesis by simp
next
  case False
  then show ?thesis by simp
qed

lemma set_remove_nth: "set (take i xs @ drop (Suc i) xs) \<subseteq> set xs"
  using set_take_subset[of i xs] set_drop_subset[of "Suc i" xs] by auto

lemma off_loop_set: "set (off_loop i fn xs) \<subseteq> set xs"
  by (induction i) (auto dest: in_set_takeD in_set_dropD)

lemma off_loop_count: "count_list (off_loop i fn xs) x \<le> count_list xs x"
proof (induction i)
  case 0
  then show ?case by simp
next
  case (Suc i)
  then show ?case using count_list_remove_nth[of i xs x] by simp
qed

lemma off_loop_removes_single:
  assumes only: "\<forall>x \<in> set xs. cb_matches x W \<longrightarrow> x = W"
    and once: "count_list xs W \<le> 1"
    and self: "cb_matches W W"
  shows "W \<notin> set (off_loop (length xs) W xs)"
proof (cases "W \<in> set xs")
  case True
  then obtain pre post where d: "xs = pre @ W # post" "W \<notin> set post"
    using split_list_last by fastforce
  with only have np: "\<forall>x \<in> set post. \<not> cb_matches x W" by auto
  from d once have "W \<notin> set pre" by (auto simp: count_list_0_iff[symmetric] simp del: count_list_0_iff)
  with off_loop_last[OF self np, of pre] d show ?thesis by simp
next
  case False
  with only have "\<forall>x \<in> set (take (length xs) xs). \<not> cb_matches x W" by auto
  then have "off_loop (length xs) W xs = xs" by (intro off_loop_none) simp_all
  with False show ?thesis by simp
qed


lemma registered_fields [simp]:
  "registered (s\<lparr> calls := cs \<rparr>) e = registered s e"
  "registered (s\<lparr> trace := tr \<rparr>) e = registered s e"
  "registered (s\<lparr> reported := rs \<rparr>) e = registered s e"
  by (simp_all add: registered_def split: option.splits)

lemma wf_bus_fields [simp]:
  "wf_bus (s\<lparr> calls := cs \<rparr>) = wf_bus s"
  "wf_bus (s\<lparr> trace := tr \<rparr>) = wf_bus s"
  "wf_bus (s\<lparr> reported := rs \<rparr>) = wf_bus s"
  by (simp_all add: wf_bus_def)

lemma unsubscribed_fields [simp]:
  "unsubscribed f (s\<lparr> calls := cs \<rparr>) = unsubscribed f s"
  "unsubscribed f (s\<lparr> trace := tr \<rparr>) = unsubscribed f s"
  "unsubscribed f (s\<lparr> reported := rs \<rparr>) = unsubscribed f s"
  by (simp_all add: unsubscribed_def)

lemma pending_fields [simp]:
  "pending f W ev (s\<lparr> calls := cs \<rparr>) = pending f W ev s"
  "pending f W ev (s\<lparr> trace := tr \<rparr>) = pending f W ev s"
  "pending f W ev (s\<lparr> reported := rs \<rparr>) = pending f W ev s"
  by (simp_all add: pending_def)

lemma calls_ops [simp]:
  "calls (on e c s) = calls s"
  "calls (once e c s) = calls s"
  "calls (off_all s) = calls s"
  "calls (off_one e fo s) = calls s"
  by (simp_all add: on_def once_def off_all_def off_one_def Let_def split: option.splits)

lemma unsubscribed_on: "unsubscribed f s \<Longrightarrow> base c \<noteq> f \<Longrightarrow> unsubscribed f (on e c s)"
  by (auto simp: unsubscribed_def wf_on registered_on)

lemma unsubscribed_once: "unsubscribed f s \<Longrightarrow> base c \<noteq> f \<Longrightarrow> unsubscribed f (once e c s)"
  by (auto simp: unsubscribed_def wf_once registered_once)

lemma unsubscribed_off_all: "unsubscribed f s \<Longrightarrow> unsubscribed f (off_all s)"
  by (simp add: unsubscribed_def wf_off_all registered_off_all)

lemma unsubscribed_off_one: "unsubscribed f s \<Longrightarrow> unsubscribed f (off_one e fo s)"
  using off_loop_set
  by (fastforce simp: unsubscribed_def wf_off_one registered_off_one split: option.splits)

lemma pending_on: "pending f W ev s \<Longrightarrow> base c \<noteq> f \<Longrightarrow> base W = f \<Longrightarrow> pending f W ev (on e c s)"
  by (auto simp: pending_def wf_on registered_on)

lemma pending_once: "pending f W ev s \<Longrightarrow> base c \<noteq> f \<Longrightarrow> base W = f \<Longrightarrow> pending f W ev (once e c s)"
  by (auto simp: pending_def wf_once registered_once)

lemma pending_off_all: "pending f W ev s \<Longrightarrow> pending f W ev (off_all s)"
  by (simp add: pending_def wf_off_all registered_off_all)

lemma pending_off_one: "pending f W ev s \<Longrightarrow> pending f W ev (off_one e fo s)"
proof -
  assume p: "pending f W ev s"
  then have wf: "wf_bus s" by (simp add: pending_def)
  show ?thesis
    unfolding pending_def
  proof (intro conjI allI ballI)
    show "wf_bus (off_one e fo s)" using wf by (rule wf_off_one)
  next
    fix e' c assume "c \<in> set (registered (off_one e fo s) e')"
    then have "c \<in> set (registered s e')"
      using off_loop_set by (fastforce simp: registered_off_one[OF wf] split: if_splits option.splits)
    with p show "base c \<noteq> f \<or> c = W \<and> e' = ev" by (simp add: pending_def)
  next
    show "count_list (registered (off_one e fo s) ev) W \<le> 1"
      using p off_loop_count[of "length (registered s ev)" _ "registered s ev" W]
      by (auto simp: pending_def registered_off_one[OF wf] split: option.splits intro: order_trans)
  qed
qed

lemma pending_unsubscribe_self:
  assumes p: "pending f W ev s" and W: "W = OnceCb w ev (Fn f)"
  shows "unsubscribed f (off_one ev (Some W) s)"
proof -
  from p have wf: "wf_bus s" by (simp add: pending_def)
  have only: "\<forall>x \<in> set (registered s ev). cb_matches x W \<longrightarrow> x = W"
  proof (intro ballI impI)
    fix x assume x: "x \<in> set (registered s ev)" and m: "cb_matches x W"
    show "x = W"
    proof (rule ccontr)
      assume "x \<noteq> W"
      with m obtain w' e' where "x = OnceCb w' e' W"
        by (cases x) (auto simp: cb_matches_def)
      then have "base x = f" using W by simp
      with p x \<open>x \<noteq> W\<close> show False by (auto simp: pending_def)
    qed
  qed
  have "W \<notin> set (off_loop (length (registered s ev)) W (registered s ev))"
    using only p by (intro off_loop_removes_single) (auto simp: pending_def cb_matches_def)
  moreover have "set (off_loop (length (registered s ev)) W (registered s ev)) \<subseteq> set (registered s ev)"
    by (rule off_loop_set)
  ultimately show ?thesis
    using p unfolding unsubscribed_def pending_def
    by (auto simp: wf_off_one registered_off_one[OF wf])
qed


lemma calls_bus_step [simp]: "calls (bus_step st s) = calls s"
  by (cases st) auto

lemma unsubscribed_step:
  "unsubscribed f s \<Longrightarrow> \<not> subscribes f st \<Longrightarrow> unsubscribed f (bus_step st s)"
  by (cases st)
     (auto intro: unsubscribed_on unsubscribed_once unsubscribed_off_all unsubscribed_off_one)

lemma pending_step:
  "pending f W ev s \<Longrightarrow> base W = f \<Longrightarrow> \<not> subscribes f st \<Longrightarrow> pending f W ev (bus_step st s)"
  by (cases st)
     (auto intro: pending_on pending_once pending_off_all pending_off_one)

lemma run_unsubscribed:
  assumes ns: "nosub p f"
  shows "exec n p d ss s = Some r \<Longrightarrow> unsubscribed f s \<Longrightarrow> \<forall>st \<in> set ss. \<not> subscribes f st \<Longrightarrow>
           unsubscribed f (final r) \<and> calls (final r) f = calls s f"
    and "apply_cb n p d c args s = Some r' \<Longrightarrow> unsubscribed f s \<Longrightarrow> base c \<noteq> f \<Longrightarrow>
           unsubscribed f (final r') \<and> calls (final r') f = calls s f"
    and "invokeWithErrorHandling n p d co args info s = Some s' \<Longrightarrow> unsubscribed f s \<Longrightarrow> \<forall>c. co = Some c \<longrightarrow> base c \<noteq> f \<Longrightarrow>
           unsubscribed f s' \<and> calls s' f = calls s f"
    and "emit_copy n p d cbs args info s = Some s' \<Longrightarrow> unsubscribed f s \<Longrightarrow> \<forall>c \<in> set cbs. base c \<noteq> f \<Longrightarrow>
           unsubscribed f s' \<and> calls s' f = calls s f"
    and "emit_live n p d a i l args info s = Some s' \<Longrightarrow> unsubscribed f s \<Longrightarrow>
           (i < l \<longrightarrow> l \<le> 1 \<and> (\<exists>e. events s e = Some a)) \<Longrightarrow>
           unsubscribed f s' \<and> calls s' f = calls s f"
    and "emit n p d ev args s = Some s' \<Longrightarrow> unsubscribed f s \<Longrightarrow>
           unsubscribed f s' \<and> calls s' f = calls s f"
proof (induction n arbitrary: d ss c co cbs a i l ev args info s r r' s' and d ss c co cbs a i l ev args info s r r' s' and d ss c co cbs a i l ev args info s r r' s'
         and d ss c co cbs a i l ev args info s r r' s' and d ss c co cbs a i l ev args info s r r' s' and d ss c co cbs a i l ev args info s r r' s')
  case 0
  { case 1 then show ?case by simp }
  { case 2 then show ?case by simp }
  { case 3 then show ?case by simp }
  { case 4 then show ?case by simp }
  { case 5 then show ?case by simp }
  { case 6 then show ?case by simp }
next
  case (Suc n)
  {
    case 1
    show ?case
    proof (cases ss)
      case Nil
      with 1 show ?thesis by auto
    next
      case (Cons st rest)
      show ?thesis
      proof (cases "emits st \<or> st = SThrow")
        case False
        then have ne: "\<not> emits st" "st \<noteq> SThrow" by auto
        have x: "exec n p d rest (bus_step st s) = Some r"
          using 1(1) unfolding Cons exec_step[OF ne] .
        have "unsubscribed f (bus_step st s)"
          using 1 Cons by (intro unsubscribed_step) auto
        from Suc.IH(1)[OF x this] 1(3) Cons show ?thesis by simp
      next
        case True
        then show ?thesis
        proof
          assume "st = SThrow"
          with 1 Cons show ?thesis by auto
        next
          assume "emits st"
          then obtain e as where st: "st = SEmit e as" by (cases st) auto
          with 1 Cons obtain s1 where e: "emit n p d e as s = Some s1" and x: "exec n p d rest s1 = Some r"
            by (auto split: option.splits)
          from Suc.IH(6)[OF e 1(2)] have "unsubscribed f s1" "calls s1 f = calls s f" by auto
          with Suc.IH(1)[OF x] 1(3) Cons show ?thesis by simp
        qed
      qed
    qed
  next
    case 2
    show ?case
    proof (cases c)
      case (Fn g)
      with 2 have g: "g \<noteq> f" by simp
      let ?s1 = "s\<lparr> calls := (calls s)(g := Suc (calls s g)) \<rparr>"
      from 2 Fn obtain r0 where x: "exec n p d (fst (p g (calls s g))) ?s1 = Some r0"
        and fr: "final r' = final r0"
        by (auto simp: Let_def split: option.splits outcome.splits)
      have "\<forall>st \<in> set (fst (p g (calls s g))). \<not> subscribes f st"
        using ns by (simp add: nosub_def)
      from Suc.IH(1)[OF x _ this] 2(2) g fr show ?thesis by simp
    next
      case (OnceCb w e c')
      with 2 obtain r0 where x: "apply_cb n p d c' args (off_one e (Some c) s) = Some r0"
        and fr: "final r' = final r0"
        by (auto split: option.splits outcome.splits)
      from Suc.IH(2)[OF x unsubscribed_off_one[OF 2(2)]] 2(3) OnceCb fr show ?thesis by simp
    next
      case (OnceHandler w e c')
      with 2 obtain r0 where x: "apply_cb n p d c' args s = Some r0"
        and fr: "final r' = final r0 \<or> final r' = off_one e (Some c) (final r0)"
        by (auto split: option.splits outcome.splits if_splits)
      from Suc.IH(2)[OF x 2(2)] 2(3) OnceHandler
      have "unsubscribed f (final r0)" "calls (final r0) f = calls s f" by auto
      with fr show ?thesis by (auto intro: unsubscribed_off_one)
    qed
  next
    case 3
    show ?case
    proof (cases co)
      case None
      with 3 show ?thesis by auto
    next
      case (Some c)
      with 3 obtain r0 where x: "apply_cb n p (Suc d) c args (s\<lparr> trace := trace s @ [(d, c, args)] \<rparr>) = Some r0"
        and fr: "s' = final r0 \<or> s' = (final r0)\<lparr> reported := reported (final r0) @ [info] \<rparr>"
        by (auto split: option.splits outcome.splits)
      from Suc.IH(2)[OF x] 3(2,3) Some
      have "unsubscribed f (final r0)" "calls (final r0) f = calls s f" by auto
      with fr show ?thesis by auto
    qed
  next
    case 4
    show ?case
    proof (cases cbs)
      case Nil
      with 4 show ?thesis by simp
    next
      case (Cons c rest)
      with 4 obtain s1 where i: "invokeWithErrorHandling n p d (Some c) args info s = Some s1"
        and x: "emit_copy n p d rest args info s1 = Some s'"
        by (auto split: option.splits)
      from Suc.IH(3)[OF i 4(2)] 4(3) Cons have "unsubscribed f s1" "calls s1 f = calls s f" by auto
      with Suc.IH(4)[OF x] 4(3) Cons show ?thesis by simp
    qed
  next
    case 5
    show ?case
    proof (cases "i < l")
      case False
      with 5 show ?thesis by simp
    next
      case True
      with 5(3) obtain e where l: "l \<le> 1" and e: "events s e = Some a" by auto
      let ?co = "if i < length (arrays s a) then Some (arrays s a ! i) else None"
      from 5 True obtain s1 where i: "invokeWithErrorHandling n p d ?co args info s = Some s1"
        and x: "emit_live n p d a (Suc i) l args info s1 = Some s'"
        by (auto split: option.splits)
      have "\<forall>c \<in> set (arrays s a). base c \<noteq> f"
        using 5(2) e by (auto simp: unsubscribed_def registered_def split: option.splits dest!: spec[of _ e])
      then have "\<forall>c. ?co = Some c \<longrightarrow> base c \<noteq> f"
        by (auto simp del: all_simps)
      from Suc.IH(3)[OF i 5(2) this] have "unsubscribed f s1" "calls s1 f = calls s f" by auto
      with Suc.IH(5)[OF x] l show ?thesis by simp
    qed
  next
    case 6
    show ?case
    proof (cases "events s ev")
      case None
      with 6 show ?thesis by simp
    next
      case (Some a)
      show ?thesis
      proof (cases "1 < length (arrays s a)")
        case True
        with 6 Some have x: "emit_copy n p d (arrays s a) args (''event handler for \"'' @ ev @ ''\"'') s = Some s'"
          by (simp add: Let_def)
        have "\<forall>c \<in> set (arrays s a). base c \<noteq> f"
          using 6(2) Some by (auto simp: unsubscribed_def registered_def split: option.splits dest!: spec[of _ ev])
        from Suc.IH(4)[OF x 6(2) this] show ?thesis .
      next
        case False
        with 6 Some have x: "emit_live n p d a 0 (length (arrays s a)) args (''event handler for \"'' @ ev @ ''\"'') s = Some s'"
          by (simp add: Let_def)
        from Suc.IH(5)[OF x 6(2)] False Some show ?thesis by auto
      qed
    qed
  }
qed


lemma exec_quiet_pending:
  "exec n p d ss s = Some r \<Longrightarrow> pending f W ev s \<Longrightarrow> base W = f \<Longrightarrow>
   \<forall>st \<in> set ss. \<not> emits st \<and> \<not> subscribes f st \<Longrightarrow>
   pending f W ev (final r) \<and> calls (final r) f = calls s f"
proof (induction n arbitrary: ss s)
  case 0
  then show ?case by simp
next
  case (Suc n)
  show ?case
  proof (cases ss)
    case Nil
    with Suc.prems show ?thesis by auto
  next
    case (Cons st rest)
    show ?thesis
    proof (cases "st = SThrow")
      case True
      with Suc.prems Cons show ?thesis by auto
    next
      case False
      with Suc.prems(4) Cons have ne: "\<not> emits st" "st \<noteq> SThrow" by auto
      have x: "exec n p d rest (bus_step st s) = Some r"
        using Suc.prems(1) unfolding Cons exec_step[OF ne] .
      have "pending f W ev (bus_step st s)"
        using Suc.prems Cons by (intro pending_step) auto
      from Suc.IH[OF x this] Suc.prems(3,4) Cons show ?thesis by simp
    qed
  qed
qed

lemma apply_quiet_pending:
  assumes ns: "nosub p f" and W: "base W = f"
  shows "apply_cb n p d c args s = Some r \<Longrightarrow> pending f W ev s \<Longrightarrow> base c \<noteq> f \<Longrightarrow>
         quiet p (base c) \<Longrightarrow> pending f W ev (final r) \<and> calls (final r) f = calls s f"
proof (induction n arbitrary: c s r)
  case 0
  then show ?case by simp
next
  case (Suc n)
  show ?case
  proof (cases c)
    case (Fn g)
    with Suc.prems have g: "g \<noteq> f" by simp
    let ?s1 = "s\<lparr> calls := (calls s)(g := Suc (calls s g)) \<rparr>"
    from Suc.prems(1) Fn obtain r0 where x: "exec n p d (fst (p g (calls s g))) ?s1 = Some r0"
      and fr: "final r = final r0"
      by (auto simp: Let_def split: option.splits outcome.splits)
    have "\<forall>st \<in> set (fst (p g (calls s g))). \<not> emits st \<and> \<not> subscribes f st"
      using ns Suc.prems(4) Fn by (simp add: nosub_def quiet_def)
    from exec_quiet_pending[OF x _ W this] Suc.prems(2) g fr show ?thesis by simp
  next
    case (OnceCb w e c')
    with Suc.prems(1) obtain r0 where x: "apply_cb n p d c' args (off_one e (Some c) s) = Some r0"
      and fr: "final r = final r0"
      by (auto split: option.splits outcome.splits)
    from Suc.IH[OF x pending_off_one[OF Suc.prems(2)]] Suc.prems(3,4) OnceCb fr show ?thesis by simp
  next
    case (OnceHandler w e c')
    with Suc.prems(1) obtain r0 where x: "apply_cb n p d c' args s = Some r0"
      and fr: "final r = final r0 \<or> final r = off_one e (Some c) (final r0)"
      by (auto split: option.splits outcome.splits if_splits)
    from Suc.IH[OF x Suc.prems(2)] Suc.prems(3,4) OnceHandler
    have "pending f W ev (final r0)" "calls (final r0) f = calls s f" by auto
    with fr show ?thesis by (auto intro: pending_off_one)
  qed
qed

lemma invoke_quiet_pending:
  assumes ns: "nosub p f" and W: "base W = f"
    and i: "invokeWithErrorHandling n p d (Some c) args info s = Some s'"
    and pe: "pending f W ev s" and c: "base c \<noteq> f" "quiet p (base c)"
  shows "pending f W ev s' \<and> calls s' f = calls s f"
proof -
  from i obtain m where n: "n = Suc m" by (cases n) auto
  with i obtain r0 where x: "apply_cb m p (Suc d) c args (s\<lparr> trace := trace s @ [(d, c, args)] \<rparr>) = Some r0"
    and fr: "s' = final r0 \<or> s' = (final r0)\<lparr> reported := reported (final r0) @ [info] \<rparr>"
    by (auto split: option.splits outcome.splits)
  from apply_quiet_pending[OF ns W x _ c] pe
  have "pending f W ev (final r0)" "calls (final r0) f = calls s f" by auto
  with fr show ?thesis by auto
qed

lemma invoke_pending_self:
  assumes ns: "nosub p f" and W: "W = OnceCb w ev (Fn f)"
    and i: "invokeWithErrorHandling n p d (Some W) args info s = Some s'"
    and pe: "pending f W ev s"
  shows "unsubscribed f s' \<and> calls s' f = Suc (calls s f)"
proof -
  from i obtain m where n: "n = Suc m" by (cases n) auto
  let ?s0 = "s\<lparr> trace := trace s @ [(d, W, args)] \<rparr>"
  from i n obtain r0 where x: "apply_cb m p (Suc d) W args ?s0 = Some r0"
    and fr: "s' = final r0 \<or> s' = (final r0)\<lparr> reported := reported (final r0) @ [info] \<rparr>"
    by (auto split: option.splits outcome.splits)
  from x obtain m1 where m: "m = Suc m1" by (cases m) auto
  let ?s1 = "off_one ev (Some W) ?s0"
  from x m W obtain r1 where y: "apply_cb m1 p (Suc d) (Fn f) args ?s1 = Some r1"
    and fr1: "final r0 = final r1"
    by (auto split: option.splits outcome.splits)
  from y obtain m2 where m1: "m1 = Suc m2" by (cases m1) auto
  let ?s2 = "?s1\<lparr> calls := (calls ?s1)(f := Suc (calls ?s1 f)) \<rparr>"
  from y m1 obtain r2 where z: "exec m2 p (Suc d) (fst (p f (calls ?s1 f))) ?s2 = Some r2"
    and fr2: "final r1 = final r2"
    by (auto simp: Let_def split: option.splits outcome.splits)
  have u: "unsubscribed f ?s2"
    using pending_unsubscribe_self[OF _ W, of ?s0] pe by simp
  have "\<forall>st \<in> set (fst (p f (calls ?s1 f))). \<not> subscribes f st"
    using ns by (simp add: nosub_def)
  from run_unsubscribed(1)[OF ns z u this]
  have "unsubscribed f (final r2)" "calls (final r2) f = Suc (calls s f)" by auto
  with fr fr1 fr2 show ?thesis by auto
qed

lemma emit_copy_pending:
  assumes ns: "nosub p f" and W: "W = OnceCb w ev (Fn f)"
  shows "emit_copy n p d (cbs @ [W]) args info s = Some s' \<Longrightarrow> pending f W ev s \<Longrightarrow>
         \<forall>c \<in> set cbs. base c \<noteq> f \<and> quiet p (base c) \<Longrightarrow>
         unsubscribed f s' \<and> calls s' f = Suc (calls s f)"
proof (induction n arbitrary: cbs s)
  case 0
  then show ?case by simp
next
  case (Suc n)
  show ?case
  proof (cases cbs)
    case Nil
    with Suc.prems(1) obtain s1 where i: "invokeWithErrorHandling n p d (Some W) args info s = Some s1"
      and x: "emit_copy n p d [] args info s1 = Some s'"
      by (auto split: option.splits)
    from x have "s' = s1" by (cases n) auto
    with invoke_pending_self[OF ns W i Suc.prems(2)] show ?thesis by simp
  next
    case (Cons c rest)
    with Suc.prems(1) obtain s1 where i: "invokeWithErrorHandling n p d (Some c) args info s = Some s1"
      and x: "emit_copy n p d (rest @ [W]) args info s1 = Some s'"
      by (auto split: option.splits)
    have bW: "base W = f" using W by simp
    from invoke_quiet_pending[OF ns bW i Suc.prems(2)] Suc.prems(3) Cons
    have "pending f W ev s1" "calls s1 f = calls s f" by auto
    with Suc.IH[OF x] Suc.prems(3) Cons show ?thesis by simp
  qed
qed

lemma first_emit_pending:
  assumes ns: "nosub p f" and W: "W = OnceCb w ev (Fn f)"
    and e: "emit n p d ev args s = Some s'"
    and pe: "pending f W ev s"
    and reg: "registered s ev = cbs @ [W]"
    and q: "\<forall>c \<in> set cbs. base c \<noteq> f \<and> quiet p (base c)"
  shows "unsubscribed f s' \<and> calls s' f = Suc (calls s f)"
proof -
  from e obtain m where n: "n = Suc m" by (cases n) auto
  from reg obtain a where a: "events s ev = Some a" "arrays s a = cbs @ [W]"
    by (auto simp: registered_def split: option.splits)
  show ?thesis
  proof (cases cbs)
    case Nil
    with e n a have l: "emit_live m p d a 0 (Suc 0) args (''event handler for \"'' @ ev @ ''\"'') s = Some s'"
      by (simp add: Let_def)
    then obtain m1 where m: "m = Suc m1" by (cases m) auto
    with l a Nil obtain s1 where i: "invokeWithErrorHandling m1 p d (Some W) args (''event handler for \"'' @ ev @ ''\"'') s = Some s1"
      and x: "emit_live m1 p d a (Suc 0) (Suc 0) args (''event handler for \"'' @ ev @ ''\"'') s1 = Some s'"
      by (auto split: option.splits)
    from x have "s' = s1" by (cases m1) auto
    with invoke_pending_self[OF ns W i pe] show ?thesis by simp
  next
    case (Cons c rest)
    with e n a have "emit_copy m p d (cbs @ [W]) args (''event handler for \"'' @ ev @ ''\"'') s = Some s'"
      by (simp add: Let_def)
    from emit_copy_pending[OF ns W this pe q] show ?thesis .
  qed
qed

lemma emit_seq_unsubscribed:
  assumes ns: "nosub p f"
  shows "emit_seq n p ev argss s = Some s' \<Longrightarrow> unsubscribed f s \<Longrightarrow> calls s' f = calls s f"
proof (induction argss arbitrary: s)
  case Nil
  then show ?case by simp
next
  case (Cons args rest)
  from Cons.prems(1) obtain s1 where e: "emit n p 0 ev args s = Some s1"
    and x: "emit_seq n p ev rest s1 = Some s'"
    by (auto split: option.splits)
  from run_unsubscribed(6)[OF ns e Cons.prems(2)] Cons.IH[OF x] show ?case by simp
qed

text \<open>
  C2. After \<open>$once(ev, f)\<close>, emissions of \<open>ev\<close> are to call \<open>f\<close> exactly once; the
  comments of \<open>$once\<close> in events.js say the same. The code does not always do so.
  At the input \<^verbatim>\<open>vm.$on("e", g); vm.$once("e", f); vm.$emit("e")\<close>, where \<open>g\<close>
  (function 1) emits \<open>e\<close> again the first time it is called and \<open>f\<close> (function 2)
  does nothing, the single emission ends and has called \<open>f\<close> twice. The emission
  iterates over its copy \<open>[g, on]\<close> of the list, \<open>on\<close> being the closure of \<open>$once\<close>.
  The emission from within \<open>g\<close> finds \<open>on\<close> subscribed and invokes it, which
  unsubscribes it and calls \<open>f\<close>; the outer emission then invokes \<open>on\<close> from its
  copy, and \<open>f\<close> is called again.
\<close>

theorem once_handler_called_twice:
  "emit_seq 30 prog_reemit_other ''e'' [[]] (once ''e'' (Fn 2) (on ''e'' (Fn 1) initEvents)) \<noteq> None \<and>
   calls (the (emit_seq 30 prog_reemit_other ''e'' [[]]
                 (once ''e'' (Fn 2) (on ''e'' (Fn 1) initEvents)))) 2 = 2 \<and>
   trace (the (emit_seq 30 prog_reemit_other ''e'' [[]]
                 (once ''e'' (Fn 2) (on ''e'' (Fn 1) initEvents)))) =
     [(0, Fn 1, []), (1, Fn 1, []), (1, OnceCb 0 ''e'' (Fn 2), []), (0, OnceCb 0 ''e'' (Fn 2), [])]"
  by (simp add: prog_reemit_other_def ev_defs numeral_eq_Suc)

text \<open>
  Where \<open>$once\<close> does keep its promise: let \<open>f\<close> not be subscribed on the instance
  (directly or wrapped), let no function of the program ever subscribe \<open>f\<close>, and
  let the handlers already registered for \<open>ev\<close> not emit. Then after \<open>$once(ev, f)\<close>
  every non-empty sequence of \<open>$emit(ev)\<close> calls that returns has called \<open>f\<close>
  exactly once. The function \<open>f\<close> itself may emit \<open>ev\<close> (and anything else) from
  within, and all other functions may emit as well.
\<close>

lemma once_invoked_exactly_once:
  assumes fresh: "unsubscribed f s0"
    and q: "\<forall>c \<in> set (registered s0 ev). quiet p (base c)"
    and ns: "nosub p f"
    and run: "emit_seq n p ev (args # argss) (once ev (Fn f) s0) = Some s'"
  shows "calls s' f = Suc (calls s0 f)"
proof -
  let ?W = "OnceCb (nextFn s0) ev (Fn f)"
  let ?s1 = "once ev (Fn f) s0"
  from fresh have wf: "wf_bus s0" and nf: "\<forall>e. \<forall>c \<in> set (registered s0 e). base c \<noteq> f"
    by (auto simp: unsubscribed_def)
  have reg: "registered ?s1 ev = registered s0 ev @ [?W]"
    by (simp add: registered_once[OF wf])
  have "?W \<notin> set (registered s0 ev)" using nf by force
  then have "count_list (registered s0 ev) ?W = 0" by simp
  then have pe: "pending f ?W ev ?s1"
    using nf by (auto simp: pending_def wf_once[OF wf] registered_once[OF wf])
  from run obtain s2 where e: "emit n p 0 ev args ?s1 = Some s2"
    and x: "emit_seq n p ev argss s2 = Some s'"
    by (auto split: option.splits)
  have "\<forall>c \<in> set (registered s0 ev). base c \<noteq> f \<and> quiet p (base c)"
    using nf q by auto
  from first_emit_pending[OF ns refl e pe reg this]
  have "unsubscribed f s2" "calls s2 f = Suc (calls ?s1 f)" by auto
  with emit_seq_unsubscribed[OF ns x] show ?thesis by simp
qed

text \<open>
  Function 2 emits its own event whenever it is called; three emissions call it
  once.
\<close>

lemma once_invoked_exactly_once_example:
  "\<exists>s'. emit_seq 40 prog_reemit_self ''e'' [[], [VInt 7], []]
           (once ''e'' (Fn 2) (on ''e'' (Fn 1) initEvents)) = Some s' \<and> calls s' 2 = 1"
proof -
  let ?s0 = "on ''e'' (Fn 1) initEvents"
  have reg: "registered ?s0 e = (if e = ''e'' then [Fn 1] else [])" for e
    by (simp add: ev_defs)
  have u: "unsubscribed 2 ?s0"
    unfolding unsubscribed_def reg by (simp add: wf_bus_def ev_defs)
  have q: "\<forall>c \<in> set (registered ?s0 ''e''). quiet prog_reemit_self (base c)"
    unfolding reg by (simp add: quiet_def prog_reemit_self_def)
  have ns: "nosub prog_reemit_self 2"
    by (simp add: nosub_def prog_reemit_self_def)
  have "emit_seq 40 prog_reemit_self ''e'' [[], [VInt 7], []] (once ''e'' (Fn 2) ?s0) \<noteq> None"
    by (simp add: prog_reemit_self_def ev_defs numeral_eq_Suc)
  then obtain s' where r: "emit_seq 40 prog_reemit_self ''e'' [[], [VInt 7], []] (once ''e'' (Fn 2) ?s0) = Some s'"
    by blast
  from once_invoked_exactly_once[OF u q ns r] have "calls s' 2 = Suc (calls ?s0 2)" .
  then have "calls s' 2 = 1" by (simp add: ev_defs)
  with r show ?thesis by blast
qed

subsection \<open>Once-handlers attached by the parent\<close>

lemma emit_null_handler:
  assumes reg: "registered s ev = [OnceHandler w ev (Fn f)]"
    and nul: "p f (calls s f) = ([], VNull)"
  shows "\<exists>s'. emit (n + 6) p d ev args s = Some s' \<and>
           calls s' = (calls s)(f := Suc (calls s f)) \<and>
           events s' = events s \<and> arrays s' = arrays s"
proof -
  from reg obtain a where a: "events s ev = Some a" "arrays s a = [OnceHandler w ev (Fn f)]"
    by (auto simp: registered_def split: option.splits)
  have n: "n + 6 = Suc (Suc (Suc (Suc (Suc (Suc n)))))" by simp
  show ?thesis
    unfolding n using a nul by (simp add: Let_def)
qed


lemma emit_seq_null_handler:
  assumes nul: "\<forall>k. p f k = ([], VNull)"
  shows "registered s ev = [OnceHandler w ev (Fn f)] \<Longrightarrow>
         \<exists>s'. emit_seq (n + 6) p ev argss s = Some s' \<and>
              calls s' f = calls s f + length argss \<and>
              registered s' ev = [OnceHandler w ev (Fn f)]"
proof (induction argss arbitrary: s)
  case Nil
  then show ?case by simp
next
  case (Cons args rest)
  from emit_null_handler[OF Cons.prems, of p n 0 args] nul
  obtain s1 where e: "emit (n + 6) p 0 ev args s = Some s1"
    and c: "calls s1 = (calls s)(f := Suc (calls s f))"
    and ea: "events s1 = events s" "arrays s1 = arrays s"
    by auto
  from ea Cons.prems have "registered s1 ev = [OnceHandler w ev (Fn f)]"
    by (auto simp: registered_def split: option.splits)
  from Cons.IH[OF this] e c show ?case by auto
qed

lemma emit_reemitting_handler:
  assumes reg: "registered s ev = [OnceHandler w ev (Fn f)]"
    and first: "p f (calls s f) = ([SEmit ev args'], r1)" "r1 \<noteq> VNull"
    and second: "p f (Suc (calls s f)) = ([], r2)" "r2 \<noteq> VNull"
  shows "\<exists>s'. emit (n + 13) p d ev args s = Some s' \<and>
           calls s' f = calls s f + 2 \<and> registered s' ev = [] \<and>
           trace s' = trace s @ [(d, OnceHandler w ev (Fn f), args), (Suc d, OnceHandler w ev (Fn f), args')]"
proof -
  from reg obtain a where a: "events s ev = Some a" "arrays s a = [OnceHandler w ev (Fn f)]"
    by (auto simp: registered_def split: option.splits)
  have n: "n + 13 = Suc (Suc (Suc (Suc (Suc (Suc (Suc (Suc (Suc (Suc (Suc (Suc (Suc n))))))))))))"
    by simp
  show ?thesis
    unfolding n using a first second
    by (simp add: Let_def off_one_def cb_matches_def registered_def)
qed

text \<open>
  C10. On a bus where the closure made by \<open>createOnceHandler\<close> for \<open>f\<close> is the only
  handler of \<open>ev\<close>:
  \<^item> when \<open>f\<close> does nothing and returns \<open>null\<close>, every sequence of emissions returns,
    calls \<open>f\<close> once per emission, and leaves the closure subscribed;
  \<^item> when \<open>f\<close> emits \<open>ev\<close> on this call and does not on the next, and returns
    something other than \<open>null\<close>, a single emission calls \<open>f\<close> twice: the closure is
    invoked again, one level deeper, by the emission from within \<open>f\<close>, since it
    is unsubscribed only after \<open>f\<close> has returned.
\<close>

theorem parent_once_handler_discipline:
  assumes reg: "registered s ev = [OnceHandler w ev (Fn f)]"
  shows "((\<forall>k. p f k = ([], VNull)) \<longrightarrow>
            (\<exists>s'. emit_seq (n + 6) p ev argss s = Some s' \<and>
                  calls s' f = calls s f + length argss \<and>
                  registered s' ev = [OnceHandler w ev (Fn f)])) \<and>
         (p f (calls s f) = ([SEmit ev args'], r1) \<and> r1 \<noteq> VNull \<and>
          p f (Suc (calls s f)) = ([], r2) \<and> r2 \<noteq> VNull \<longrightarrow>
            (\<exists>s'. emit (n + 13) p d ev args s = Some s' \<and>
                  calls s' f = calls s f + 2 \<and> registered s' ev = [] \<and>
                  trace s' = trace s @ [(d, OnceHandler w ev (Fn f), args),
                                        (Suc d, OnceHandler w ev (Fn f), args')]))"
  using emit_seq_null_handler[OF _ reg, of p n argss]
    emit_reemitting_handler[OF reg, of p args' r1 r2 n d args]
  by blast

text \<open>Three emissions with a handler that returns \<open>null\<close>; one emission with a
  handler that emits the event again on its first call.\<close>

theorem parent_once_handler_discipline_witness:
  "(\<exists>s'. emit_seq 6 prog_null ''e'' [[], [VInt 1], []]
            (on ''e'' (OnceHandler 0 ''e'' (Fn 1)) initEvents) = Some s' \<and>
          calls s' 1 = 3 \<and> registered s' ''e'' = [OnceHandler 0 ''e'' (Fn 1)]) \<and>
   (\<exists>s'. emit 13 prog_reemit_first 0 ''e'' [VInt 1]
            (on ''e'' (OnceHandler 0 ''e'' (Fn 1)) initEvents) = Some s' \<and>
          calls s' 1 = 2 \<and> registered s' ''e'' = [])"
proof -
  let ?s = "on ''e'' (OnceHandler 0 ''e'' (Fn 1)) initEvents"
  have reg: "registered ?s ''e'' = [OnceHandler 0 ''e'' (Fn 1)]"
    by (simp add: on_def initEvents_def hookRE_def registered_def Let_def)
  have c: "calls ?s 1 = 0"
    by (simp add: on_def initEvents_def hookRE_def Let_def)
  have a: "\<forall>k. prog_null 1 k = ([], VNull)" by (simp add: prog_null_def)
  have b: "prog_reemit_first 1 (calls ?s 1) = ([SEmit ''e'' []], VUndef) \<and> VUndef \<noteq> VNull \<and>
           prog_reemit_first 1 (Suc (calls ?s 1)) = ([], VUndef) \<and> VUndef \<noteq> VNull"
    using c by (simp add: prog_reemit_first_def)
  from parent_once_handler_discipline[OF reg, where p = prog_null and n = 0 and argss = "[[], [VInt 1], []]"] a
  have 1: "\<exists>s'. emit_seq 6 prog_null ''e'' [[], [VInt 1], []] ?s = Some s' \<and>
          calls s' 1 = 3 \<and> registered s' ''e'' = [OnceHandler 0 ''e'' (Fn 1)]"
    using c by (simp del: emit_seq.simps add: numeral_3_eq_3)
  from parent_once_handler_discipline[OF reg, where p = prog_reemit_first and args' = "[]" and ?r1.0 = VUndef
      and ?r2.0 = VUndef and n = 0 and d = 0 and args = "[VInt 1]" and argss = "[]"] b
  have 2: "\<exists>s'. emit 13 prog_reemit_first 0 ''e'' [VInt 1] ?s = Some s' \<and>
          calls s' 1 = 2 \<and> registered s' ''e'' = []"
    using c by (simp add: numeral_2_eq_2) blast
  from 1 2 show ?thesis by blast
qed


section \<open>Properties of the lifecycle\<close>

subsection \<open>Activation and deactivation\<close>

lemma callHook_result:
  assumes "callHook n p vm hook w = Some w'"
  shows "\<exists>b. w' = w\<lparr> hooklog := hooklog w @ [(vm, hook)],
                     vms := (vms w)(vm := (vms w vm)\<lparr> bus := b \<rparr>) \<rparr>"
  using assms
  by (auto simp: callHook_def pushTarget_def popTarget_def upd_vm_def Let_def
           split: option.splits if_splits)

lemma keeps_refl: "keeps c w w"
  by (simp add: keeps_def)

lemma keeps_trans: "keeps c w w1 \<Longrightarrow> keeps c w1 w2 \<Longrightarrow> keeps c w w2"
  by (auto simp: keeps_def)

lemma keeps_upd_vm: "vm \<noteq> c \<Longrightarrow> keeps c w (upd_vm vm g w)"
  by (simp add: keeps_def upd_vm_def)

lemma keeps_callHook: "callHook n p vm hook w = Some w' \<Longrightarrow> vm \<noteq> c \<or> hook \<noteq> ''activated'' \<Longrightarrow> keeps c w w'"
  by (drule callHook_result) (auto simp: keeps_def split: if_splits)

lemma activate_keeps:
  shows "activateChildComponent n p vm direct w = Some w' \<Longrightarrow> directInactive (vms w c) \<Longrightarrow>
           vm \<noteq> c \<or> \<not> direct \<Longrightarrow> keeps c w w'"
    and "activate_rest n p vm w = Some w' \<Longrightarrow> directInactive (vms w c) \<Longrightarrow> vm \<noteq> c \<Longrightarrow> keeps c w w'"
    and "activate_children n p vm i w = Some w' \<Longrightarrow> directInactive (vms w c) \<Longrightarrow> keeps c w w'"
proof (induction n arbitrary: vm direct i w w' and vm direct i w w' and vm direct i w w')
  case 0
  { case 1 then show ?case by simp }
  { case 2 then show ?case by simp }
  { case 3 then show ?case by simp }
next
  case (Suc n)
  {
    case 1
    show ?case
    proof (cases direct)
      case True
      with 1 have ne: "vm \<noteq> c" by simp
      let ?w1 = "upd_vm vm (\<lambda>i. i\<lparr> directInactive := False \<rparr>) w"
      have k1: "keeps c w ?w1" using ne by (rule keeps_upd_vm)
      have d1: "directInactive (vms ?w1 c)" using 1(2) ne by (simp add: upd_vm_def)
      from 1(1) True have "w' = ?w1 \<or> activate_rest n p vm ?w1 = Some w'"
        by (auto simp: Let_def split: option.splits bool.splits)
      then show ?thesis
      proof
        assume "w' = ?w1" with k1 show ?thesis by simp
      next
        assume "activate_rest n p vm ?w1 = Some w'"
        from Suc.IH(2)[OF this d1 ne] k1 show ?thesis by (rule keeps_trans[rotated])
      qed
    next
      case False
      show ?thesis
      proof (cases "directInactive (vms w vm)")
        case True
        with 1(1) False show ?thesis by (simp add: keeps_refl)
      next
        case dF: False
        with 1(2) have ne: "vm \<noteq> c" by auto
        from 1(1) False dF have "activate_rest n p vm w = Some w'" by simp
        from Suc.IH(2)[OF this 1(2) ne] show ?thesis .
      qed
    qed
  next
    case 2
    show ?case
    proof (cases "inactive (vms w vm) \<noteq> Some False")
      case False
      with 2 show ?thesis by (simp add: keeps_refl)
    next
      case True
      let ?w1 = "upd_vm vm (\<lambda>i. i\<lparr> inactive := Some False \<rparr>) w"
      from 2(1) True obtain w2 where ch: "activate_children n p vm 0 ?w1 = Some w2"
        and h: "callHook n p vm ''activated'' w2 = Some w'"
        by (auto split: option.splits)
      have k1: "keeps c w ?w1" using 2(3) by (rule keeps_upd_vm)
      have d1: "directInactive (vms ?w1 c)" using 2(2,3) by (simp add: upd_vm_def)
      from Suc.IH(3)[OF ch d1] have k2: "keeps c ?w1 w2" .
      from keeps_callHook[OF h] 2(3) have k3: "keeps c w2 w'" by simp
      from k1 k2 k3 show ?thesis by (blast intro: keeps_trans)
    qed
  next
    case 3
    show ?case
    proof (cases "i < length (children (vms w vm))")
      case False
      with 3 show ?thesis by (simp add: keeps_refl)
    next
      case True
      with 3(1) obtain w1 where a: "activateChildComponent n p (children (vms w vm) ! i) False w = Some w1"
        and r: "activate_children n p vm (Suc i) w1 = Some w'"
        by (auto split: option.splits)
      from Suc.IH(1)[OF a 3(2)] have k1: "keeps c w w1" by simp
      then have "directInactive (vms w1 c)" using 3(2) by (simp add: keeps_def)
      from Suc.IH(3)[OF r this] k1 show ?thesis by (blast intro: keeps_trans)
    qed
  }
qed


lemma sticky_refl: "sticky c w w"
  by (simp add: sticky_def)

lemma sticky_trans: "sticky c w w1 \<Longrightarrow> sticky c w1 w2 \<Longrightarrow> sticky c w w2"
  by (auto simp: sticky_def)

lemma sticky_callHook: "callHook n p vm hook w = Some w' \<Longrightarrow> sticky c w w'"
  by (drule callHook_result) (auto simp: sticky_def split: if_splits)

lemma deactivate_sticky:
  shows "deactivateChildComponent n p vm direct w = Some w' \<Longrightarrow> sticky c w w'"
    and "deactivate_rest n p vm w = Some w' \<Longrightarrow> sticky c w w'"
    and "deactivate_children n p vm i w = Some w' \<Longrightarrow> sticky c w w'"
proof (induction n arbitrary: vm direct i w w' and vm direct i w w' and vm direct i w w')
  case 0
  { case 1 then show ?case by simp }
  { case 2 then show ?case by simp }
  { case 3 then show ?case by simp }
next
  case (Suc n)
  {
    case 1
    show ?case
    proof (cases direct)
      case True
      let ?w1 = "upd_vm vm (\<lambda>i. i\<lparr> directInactive := True \<rparr>) w"
      have k1: "sticky c w ?w1" by (simp add: sticky_def upd_vm_def)
      from 1 True have "w' = ?w1 \<or> deactivate_rest n p vm ?w1 = Some w'"
        by (auto simp: Let_def split: option.splits bool.splits)
      then show ?thesis
      proof
        assume "w' = ?w1" with k1 show ?thesis by simp
      next
        assume "deactivate_rest n p vm ?w1 = Some w'"
        from Suc.IH(2)[OF this] k1 show ?thesis by (rule sticky_trans[rotated])
      qed
    next
      case False
      with 1 have "deactivate_rest n p vm w = Some w'" by simp
      from Suc.IH(2)[OF this] show ?thesis .
    qed
  next
    case 2
    show ?case
    proof (cases "inactive (vms w vm) \<noteq> Some True")
      case False
      with 2 show ?thesis by (simp add: sticky_refl)
    next
      case True
      let ?w1 = "upd_vm vm (\<lambda>i. i\<lparr> inactive := Some True \<rparr>) w"
      from 2 True obtain w2 where ch: "deactivate_children n p vm 0 ?w1 = Some w2"
        and h: "callHook n p vm ''deactivated'' w2 = Some w'"
        by (auto split: option.splits)
      have k1: "sticky c w ?w1" by (simp add: sticky_def upd_vm_def)
      from Suc.IH(3)[OF ch] have k2: "sticky c ?w1 w2" .
      from sticky_callHook[OF h] have k3: "sticky c w2 w'" .
      from k1 k2 k3 show ?thesis by (blast intro: sticky_trans)
    qed
  next
    case 3
    show ?case
    proof (cases "i < length (children (vms w vm))")
      case False
      with 3 show ?thesis by (simp add: sticky_refl)
    next
      case True
      with 3 obtain w1 where a: "deactivateChildComponent n p (children (vms w vm) ! i) False w = Some w1"
        and r: "deactivate_children n p vm (Suc i) w1 = Some w'"
        by (auto split: option.splits)
      from Suc.IH(1)[OF a] Suc.IH(3)[OF r] show ?thesis by (blast intro: sticky_trans)
    qed
  }
qed

lemma deactivate_direct_flag:
  assumes "deactivateChildComponent n p c True w = Some w'"
  shows "directInactive (vms w' c)"
proof -
  from assms obtain m where n: "n = Suc m" by (cases n) auto
  let ?w1 = "upd_vm c (\<lambda>i. i\<lparr> directInactive := True \<rparr>) w"
  have d: "directInactive (vms ?w1 c)" by (simp add: upd_vm_def)
  from assms n have "w' = ?w1 \<or> deactivate_rest m p c ?w1 = Some w'"
    by (auto simp: Let_def split: option.splits bool.splits)
  then show ?thesis
  proof
    assume "w' = ?w1" with d show ?thesis by simp
  next
    assume "deactivate_rest m p c ?w1 = Some w'"
    from deactivate_sticky(2)[OF this, of c] d show ?thesis by (simp add: sticky_def)
  qed
qed

text \<open>
  C6. Instance \<open>c\<close> is deactivated directly and is inactive after that; then another
  instance \<open>a\<close> (an ancestor, say) is deactivated directly, and then \<open>a\<close> is
  reactivated directly. Whatever \<open>a\<close> is, as long as it is not \<open>c\<close> itself: at the end
  \<open>c\<close> is still inactive, its \<open>_directInactive\<close> flag is still set, and the
  reactivation has not called the \<open>activated\<close> hook of \<open>c\<close>.
\<close>

theorem direct_deactivation_is_sticky:
  assumes d1: "deactivateChildComponent n1 p c True w0 = Some w1"
    and inact: "inactive (vms w1 c) = Some True"
    and d2: "deactivateChildComponent n2 p a True w1 = Some w2"
    and ac: "activateChildComponent n3 p a True w2 = Some w3"
    and ne: "a \<noteq> c"
  shows "inactive (vms w3 c) = Some True \<and> directInactive (vms w3 c) \<and>
         (\<exists>ext. hooklog w3 = hooklog w2 @ ext \<and> (c, ''activated'') \<notin> set ext)"
proof -
  from deactivate_direct_flag[OF d1] have "directInactive (vms w1 c)" .
  with deactivate_sticky(1)[OF d2, of c] inact
  have f2: "directInactive (vms w2 c)" "inactive (vms w2 c) = Some True"
    by (auto simp: sticky_def)
  from activate_keeps(1)[OF ac f2(1)] ne have "keeps c w2 w3" by simp
  with f2 show ?thesis by (simp add: keeps_def)
qed

lemmas world_defs = chain_world_def blank_world_def blank_vm_def no_prog_def initEvents_def
  callHook_def pushTarget_def popTarget_def upd_vm_def Let_def

text \<open>
  In the line of three: 2 is deactivated directly, then its grandparent 0, then 0
  is reactivated. Instance 1 is active again, instance 2 is not.
\<close>

theorem direct_deactivation_is_sticky_witness:
  "\<exists>w1 w2 w3.
     deactivateChildComponent 20 no_prog 2 True chain_world = Some w1 \<and>
     deactivateChildComponent 20 no_prog 0 True w1 = Some w2 \<and>
     activateChildComponent 20 no_prog 0 True w2 = Some w3 \<and>
     inactive (vms w2 1) = Some True \<and> inactive (vms w3 1) = Some False \<and>
     inactive (vms w3 2) = Some True \<and> directInactive (vms w3 2) \<and>
     (2, ''activated'') \<notin> set (hooklog w3)"
proof -
  have "Option.bind (deactivateChildComponent 20 no_prog 2 True chain_world) (\<lambda>w1.
          if inactive (vms w1 2) = Some True \<and> hooklog w1 = [(2, ''deactivated'')]
          then Option.bind (deactivateChildComponent 20 no_prog 0 True w1) (\<lambda>w2.
                 if inactive (vms w2 1) = Some True \<and> (2, ''activated'') \<notin> set (hooklog w2)
                 then Option.bind (activateChildComponent 20 no_prog 0 True w2) (\<lambda>w3.
                        if inactive (vms w3 1) = Some False then Some w3 else None)
                 else None)
          else None) \<noteq> None"
    by (simp add: world_defs numeral_eq_Suc)
  then obtain w1 w2 w3 where
    d1: "deactivateChildComponent 20 no_prog 2 True chain_world = Some w1" and
    i1: "inactive (vms w1 2) = Some True" and
    d2: "deactivateChildComponent 20 no_prog 0 True w1 = Some w2" and
    i2: "inactive (vms w2 1) = Some True" "(2, ''activated'') \<notin> set (hooklog w2)" and
    ac: "activateChildComponent 20 no_prog 0 True w2 = Some w3" and
    i3: "inactive (vms w3 1) = Some False"
    by (auto simp: bind_eq_Some_conv split: if_splits)
  from direct_deactivation_is_sticky[OF d1 i1 d2 ac] i2(2)
  have "inactive (vms w3 2) = Some True \<and> directInactive (vms w3 2) \<and> (2, ''activated'') \<notin> set (hooklog w3)"
    by auto
  with d1 d2 ac i2 i3 show ?thesis by blast
qed

subsection \<open>Hooks that end\<close>

text \<open>A larger bound does not change a hook call that ended; and a hook call ends
  when no function of the program emits.\<close>

lemma invoke_handlers_mono:
  "invoke_handlers n p fs info b = Some b' \<Longrightarrow> n \<le> m \<Longrightarrow> invoke_handlers m p fs info b = Some b'"
proof (induction fs arbitrary: b)
  case Nil
  then show ?case by simp
next
  case (Cons f fs)
  from Cons.prems(1) obtain b1 where i: "invokeWithErrorHandling n p 0 (Some (Fn f)) [] info b = Some b1"
    and r: "invoke_handlers n p fs info b1 = Some b'"
    by (auto split: option.splits)
  from run_mono(3)[OF Cons.prems(2) i] Cons.IH[OF r Cons.prems(2)] show ?case by simp
qed

lemma invoke_handlers_total:
  assumes q: "\<forall>g. quiet p g"
  shows "\<exists>n b'. invoke_handlers n p fs info b = Some b'"
proof (induction fs arbitrary: b)
  case Nil
  then show ?case by simp
next
  case (Cons f fs)
  from invoke_quiet_total[of p "Fn f" 0 "[]" info b] q
  obtain n1 b1 where i: "invokeWithErrorHandling n1 p 0 (Some (Fn f)) [] info b = Some b1" by auto
  from Cons.IH[of b1] obtain n2 b2 where r: "invoke_handlers n2 p fs info b1 = Some b2" by blast
  let ?m = "max n1 n2"
  from run_mono(3)[OF _ i, of ?m] have "invokeWithErrorHandling ?m p 0 (Some (Fn f)) [] info b = Some b1" by simp
  moreover from invoke_handlers_mono[OF r, of ?m] have "invoke_handlers ?m p fs info b1 = Some b2" by simp
  ultimately have "invoke_handlers ?m p (f # fs) info b = Some b2" by simp
  then show ?case by blast
qed

lemma callHook_mono:
  assumes "callHook n p vm hook w = Some w'" and "n \<le> m"
  shows "callHook m p vm hook w = Some w'"
proof -
  let ?w1 = "pushTarget None (w\<lparr> hooklog := hooklog w @ [(vm, hook)] \<rparr>)"
  from assms(1) obtain b1 b2 where
    i: "invoke_handlers n p (hooks (vms ?w1 vm) hook) (hook @ '' hook'') (bus (vms ?w1 vm)) = Some b1" and
    e: "(if hasHookEvent b1 then emit n p 0 (''hook:'' @ hook) [] b1 else Some b1) = Some b2" and
    w': "w' = popTarget (upd_vm vm (\<lambda>i. i\<lparr> bus := b2 \<rparr>) ?w1)"
    by (auto simp: callHook_def Let_def split: option.splits)
  from invoke_handlers_mono[OF i assms(2)]
  have i': "invoke_handlers m p (hooks (vms ?w1 vm) hook) (hook @ '' hook'') (bus (vms ?w1 vm)) = Some b1" .
  from e run_mono(6)[OF assms(2), of p 0 "''hook:'' @ hook" "[]" b1 b2]
  have e': "(if hasHookEvent b1 then emit m p 0 (''hook:'' @ hook) [] b1 else Some b1) = Some b2"
    by (auto split: if_splits)
  from i' e' w' show ?thesis
    by (simp add: callHook_def Let_def)
qed

lemma callHook_total:
  assumes q: "\<forall>g. quiet p g"
  shows "\<exists>n w'. callHook n p vm hook w = Some w'"
proof -
  let ?w1 = "pushTarget None (w\<lparr> hooklog := hooklog w @ [(vm, hook)] \<rparr>)"
  from invoke_handlers_total[OF q, of "hooks (vms ?w1 vm) hook" "hook @ '' hook''" "bus (vms ?w1 vm)"]
  obtain n1 b1 where
    i: "invoke_handlers n1 p (hooks (vms ?w1 vm) hook) (hook @ '' hook'') (bus (vms ?w1 vm)) = Some b1"
    by blast
  from emit_quiet_total[of b1 "''hook:'' @ hook" p 0 "[]"] q
  obtain n2 b2 where e: "emit n2 p 0 (''hook:'' @ hook) [] b1 = Some b2" by auto
  let ?m = "max n1 n2"
  from invoke_handlers_mono[OF i, of ?m]
  have i': "invoke_handlers ?m p (hooks (vms ?w1 vm) hook) (hook @ '' hook'') (bus (vms ?w1 vm)) = Some b1"
    by simp
  from run_mono(6)[OF _ e, of ?m] have e': "emit ?m p 0 (''hook:'' @ hook) [] b1 = Some b2" by simp
  from i' e' have "\<exists>w'. callHook ?m p vm hook w = Some w'"
    by (simp add: callHook_def Let_def)
  then show ?thesis by blast
qed

lemma callHook_returns:
  assumes q: "\<forall>g. quiet p g"
  shows "\<exists>N w'. \<forall>n \<ge> N. callHook n p vm hook w = Some w'"
proof -
  from callHook_total[OF q] obtain N w' where "callHook N p vm hook w = Some w'" by blast
  then have "\<forall>n \<ge> N. callHook n p vm hook w = Some w'" by (blast intro: callHook_mono)
  then show ?thesis by blast
qed


subsection \<open>Destruction\<close>

lemma remove_remove1 [simp]: "remove arr item = remove1 item arr"
  by (simp add: remove_def)

lemma teardown_frame [simp]:
  "vms (teardown r w) = vms w" "hooklog (teardown r w) = hooklog w"
  "patchlog (teardown r w) = patchlog w" "activeInstance (teardown r w) = activeInstance w"
  "vmCount (teardown r w) = vmCount w" "trees (teardown r w) = trees w"
  "vue_ref (teardown r w) = vue_ref w" "wdeps (teardown r w) = wdeps w"
  by (simp_all add: teardown_def)

lemma teardown_links: "links_ok w \<Longrightarrow> links_ok (teardown r w)"
  by (auto simp: links_ok_def teardown_def)



lemma teardown_loop_frame [simp]:
  "vms (teardown_loop i ws w) = vms w" "hooklog (teardown_loop i ws w) = hooklog w"
  "patchlog (teardown_loop i ws w) = patchlog w" "activeInstance (teardown_loop i ws w) = activeInstance w"
  "trees (teardown_loop i ws w) = trees w"
  "vue_ref (teardown_loop i ws w) = vue_ref w"
  by (induction i arbitrary: w; simp)+

lemma teardown_loop_links: "links_ok w \<Longrightarrow> links_ok (teardown_loop i ws w)"
  by (induction i arbitrary: w) (auto intro: teardown_links)













subsection \<open>The process-wide slots\<close>

lemma after_patch_active [simp]: "activeInstance (after_patch vm prevEl prev w) = prev"
  by (simp add: after_patch_def restoreActiveInstance_def upd_vm_def Let_def split: option.splits)

lemma after_patch_patchlog [simp]: "patchlog (after_patch vm prevEl prev w) = patchlog w"
  by (simp add: after_patch_def restoreActiveInstance_def upd_vm_def Let_def split: option.splits)

lemma update_restores:
  shows "patch n vm old new w = Some (Done e w') \<Longrightarrow>
           activeInstance w' = activeInstance w \<and>
           (\<exists>ext. patchlog w' = patchlog w @ (vm, activeInstance w, old, new) # ext \<and> attributed ext)"
    and "mount_comps n cs w = Some (Done u w') \<Longrightarrow>
           activeInstance w' = activeInstance w \<and>
           (\<exists>ext. patchlog w' = patchlog w @ ext \<and> attributed ext)"
    and "prototype_update n vm vnode w = Some (Done u w') \<Longrightarrow>
           activeInstance w' = activeInstance w \<and>
           (\<exists>ext. patchlog w' = patchlog w @ ext \<and> attributed ext)"
proof (induction n arbitrary: vm old new cs vnode w w' e u and vm old new cs vnode w w' e u
         and vm old new cs vnode w w' e u)
  case 0
  { case 1 then show ?case by simp }
  { case 2 then show ?case by simp }
  { case 3 then show ?case by simp }
next
  case (Suc n)
  {
    case 1
    let ?w1 = "w\<lparr> patchlog := patchlog w @ [(vm, activeInstance w, old, new)] \<rparr>"
    show ?case
    proof (cases new)
      case None
      with 1 show ?thesis
        by (auto simp: Let_def attributed_def split: patch_old.splits option.splits if_splits)
    next
      case (Some t)
      with 1 obtain w2 where m: "mount_comps n (comps (trees ?w1 t)) ?w1 = Some (Done () w2)"
        and w': "w' = w2"
        by (auto simp: Let_def split: if_splits option.splits outcome.splits)
      from Suc.IH(2)[OF m] w' show ?thesis by auto
    qed
  next
    case 2
    show ?case
    proof (cases cs)
      case Nil
      with 2 show ?thesis by (auto simp: attributed_def)
    next
      case (Cons ct rest)
      obtain c t where ct: "ct = (c, t)" by (cases ct)
      with 2 Cons obtain w1 where a: "prototype_update n c t w = Some (Done () w1)"
        and b: "mount_comps n rest w1 = Some (Done u w')"
        by (auto split: option.splits outcome.splits)
      from Suc.IH(3)[OF a] Suc.IH(2)[OF b] show ?thesis
        by (auto simp: attributed_def)
    qed
  next
    case 3
    let ?w2 = "upd_vm vm (\<lambda>i. i\<lparr> own_vnode := Some vnode \<rparr>) (w\<lparr> activeInstance := Some vm \<rparr>)"
    let ?old = "if own_vnode (vms w vm) = None then OldEl (el (vms ?w2 vm)) else OldTree (own_vnode (vms w vm))"
    from 3 obtain e w3 where a: "patch n vm ?old (Some vnode) ?w2 = Some (Done e w3)"
      and w': "w' = after_patch vm (el (vms w vm)) (activeInstance w) (upd_vm vm (\<lambda>i. i\<lparr> el := e \<rparr>) w3)"
      by (auto simp: Let_def setActiveInstance_def split: if_splits option.splits outcome.splits)
    from Suc.IH(1)[OF a] obtain ext where
      "patchlog w3 = patchlog ?w2 @ (vm, activeInstance ?w2, ?old, Some vnode) # ext" "attributed ext"
      by blast
    then show ?case using w'
      by (auto simp: upd_vm_def attributed_def)
  }
qed

lemma callHook_restores:
  "callHook n p vm hook w = Some w' \<Longrightarrow> target w' = target w \<and> targetStack w' = targetStack w"
  by (drule callHook_result) auto

text \<open>Updates do not change the trees.\<close>

lemma after_patch_trees [simp]: "trees (after_patch vm prevEl prev w) = trees w"
  by (simp add: after_patch_def restoreActiveInstance_def upd_vm_def Let_def split: option.splits)

lemma update_trees:
  shows "patch n vm old new w = Some r \<Longrightarrow> trees (final r) = trees w"
    and "mount_comps n cs w = Some r' \<Longrightarrow> trees (final r') = trees w"
    and "prototype_update n vm vnode w = Some r' \<Longrightarrow> trees (final r') = trees w"
proof (induction n arbitrary: vm old new cs vnode w r r' and vm old new cs vnode w r r'
         and vm old new cs vnode w r r')
  case 0
  { case 1 then show ?case by simp }
  { case 2 then show ?case by simp }
  { case 3 then show ?case by simp }
next
  case (Suc n)
  {
    case 1
    then show ?case
      by (auto simp: Let_def split: option.splits patch_old.splits if_splits outcome.splits
               dest!: Suc.IH(2))
  next
    case 2
    then show ?case
      by (auto split: list.splits option.splits outcome.splits dest!: Suc.IH(2,3))
  next
    case 3
    then show ?case
      by (auto simp: Let_def setActiveInstance_def upd_vm_def
               split: if_splits option.splits outcome.splits dest!: Suc.IH(1))
  }
qed

text \<open>
  An update that throws: the patch calls made start with the call for the
  updating instance and end with a call for an instance \<open>v\<close> on a tree that cannot
  be patched; each call saw its own instance in the slot, and the slot is left
  with \<open>v\<close>.
\<close>

lemma update_throws:
  shows "patch n vm old (Some tn) w = Some (Thrown w') \<Longrightarrow>
           (patchlog w' = patchlog w @ [(vm, activeInstance w, old, Some tn)] \<and> faulty (trees w tn) \<and>
            activeInstance w' = activeInstance w) \<or>
           (\<exists>ext v od t. patchlog w' = patchlog w @ (vm, activeInstance w, old, Some tn) # ext @ [(v, Some v, od, Some t)] \<and>
                  attributed ext \<and> faulty (trees w t) \<and> activeInstance w' = Some v)"
    and "mount_comps n cs w = Some (Thrown w') \<Longrightarrow>
           (\<exists>ext v od t. patchlog w' = patchlog w @ ext @ [(v, Some v, od, Some t)] \<and>
                  attributed ext \<and> faulty (trees w t) \<and> activeInstance w' = Some v)"
    and "prototype_update n vm vnode w = Some (Thrown w') \<Longrightarrow>
           (\<exists>ext v od t. patchlog w' = patchlog w @ ext @ [(v, Some v, od, Some t)] \<and>
                  attributed ext \<and> faulty (trees w t) \<and> activeInstance w' = Some v \<and>
                  fst (hd (ext @ [(v, Some v, od, Some t)])) = vm)"
proof (induction n arbitrary: vm old tn cs vnode w w' and vm old tn cs vnode w w'
         and vm old tn cs vnode w w')
  case 0
  { case 1 then show ?case by simp }
  { case 2 then show ?case by simp }
  { case 3 then show ?case by simp }
next
  case (Suc n)
  {
    case 1
    let ?w1 = "w\<lparr> patchlog := patchlog w @ [(vm, activeInstance w, old, Some tn)] \<rparr>"
    show ?case
    proof (cases "faulty (trees w tn)")
      case True
      with 1 have "w' = ?w1" by (auto simp: Let_def)
      with True show ?thesis by simp
    next
      case False
      with 1 have m: "mount_comps n (comps (trees ?w1 tn)) ?w1 = Some (Thrown w')"
        by (auto simp: Let_def split: option.splits outcome.splits)
      from Suc.IH(2)[OF m] obtain ext v od t where
        "patchlog w' = patchlog ?w1 @ ext @ [(v, Some v, od, Some t)]" "attributed ext"
        "faulty (trees ?w1 t)" "activeInstance w' = Some v" by blast
      then have "patchlog w' = patchlog w @ (vm, activeInstance w, old, Some tn) # ext @ [(v, Some v, od, Some t)] \<and>
                  attributed ext \<and> faulty (trees w t) \<and> activeInstance w' = Some v"
        by simp
      then show ?thesis by blast
    qed
  next
    case 2
    show ?case
    proof (cases cs)
      case Nil
      with 2 show ?thesis by simp
    next
      case (Cons ct rest)
      obtain c t where ct: "ct = (c, t)" by (cases ct)
      from 2 Cons ct have
        "prototype_update n c t w = Some (Thrown w') \<or>
         (\<exists>w1. prototype_update n c t w = Some (Done () w1) \<and> mount_comps n rest w1 = Some (Thrown w'))"
        by (auto split: option.splits outcome.splits)
      then show ?thesis
      proof
        assume "prototype_update n c t w = Some (Thrown w')"
        from Suc.IH(3)[OF this] show ?thesis by blast
      next
        assume "\<exists>w1. prototype_update n c t w = Some (Done () w1) \<and> mount_comps n rest w1 = Some (Thrown w')"
        then obtain w1 where a: "prototype_update n c t w = Some (Done () w1)"
          and b: "mount_comps n rest w1 = Some (Thrown w')" by blast
        from update_restores(3)[OF a] obtain e1 where e1: "patchlog w1 = patchlog w @ e1" "attributed e1"
          by blast
        from update_trees(3)[OF a] have tr: "trees w1 = trees w" by simp
        from Suc.IH(2)[OF b] obtain e2 v od t' where e2: "patchlog w' = patchlog w1 @ e2 @ [(v, Some v, od, Some t')]"
          "attributed e2" "faulty (trees w1 t')" "activeInstance w' = Some v" by blast
        from e1 e2 tr have "patchlog w' = patchlog w @ (e1 @ e2) @ [(v, Some v, od, Some t')] \<and>
            attributed (e1 @ e2) \<and> faulty (trees w t') \<and> activeInstance w' = Some v"
          by (auto simp: attributed_def)
        then show ?thesis by blast
      qed
    qed
  next
    case 3
    let ?w2 = "upd_vm vm (\<lambda>i. i\<lparr> own_vnode := Some vnode \<rparr>) (w\<lparr> activeInstance := Some vm \<rparr>)"
    let ?old = "if own_vnode (vms w vm) = None then OldEl (el (vms ?w2 vm)) else OldTree (own_vnode (vms w vm))"
    from 3 have a: "patch n vm ?old (Some vnode) ?w2 = Some (Thrown w')"
      by (auto simp: Let_def setActiveInstance_def split: if_splits option.splits outcome.splits)
    have f: "patchlog ?w2 = patchlog w" "activeInstance ?w2 = Some vm" "trees ?w2 = trees w"
      by (simp_all add: upd_vm_def)
    from Suc.IH(1)[OF a] show ?case
    proof
      assume "patchlog w' = patchlog ?w2 @ [(vm, activeInstance ?w2, ?old, Some vnode)] \<and>
              faulty (trees ?w2 vnode) \<and> activeInstance w' = activeInstance ?w2"
      then have "patchlog w' = patchlog w @ [] @ [(vm, Some vm, ?old, Some vnode)] \<and>
                  attributed [] \<and> faulty (trees w vnode) \<and> activeInstance w' = Some vm \<and>
                  fst (hd ([] @ [(vm, Some vm, ?old, Some vnode)])) = vm"
        unfolding f by (simp add: attributed_def)
      then show ?thesis by blast
    next
      assume "\<exists>ext v od t. patchlog w' = patchlog ?w2 @ (vm, activeInstance ?w2, ?old, Some vnode) # ext @ [(v, Some v, od, Some t)] \<and>
                  attributed ext \<and> faulty (trees ?w2 t) \<and> activeInstance w' = Some v"
      then obtain ext v od t where
        e: "patchlog w' = patchlog ?w2 @ (vm, activeInstance ?w2, ?old, Some vnode) # ext @ [(v, Some v, od, Some t)]"
           "attributed ext" "faulty (trees ?w2 t)" "activeInstance w' = Some v" by blast
      let ?ext = "(vm, Some vm, ?old, Some vnode) # ext"
      from e have "patchlog w' = patchlog w @ ?ext @ [(v, Some v, od, Some t)] \<and>
                  attributed ?ext \<and> faulty (trees w t) \<and> activeInstance w' = Some v \<and>
                  fst (hd (?ext @ [(v, Some v, od, Some t)])) = vm"
        unfolding f by (simp add: attributed_def)
      then show ?thesis by blast
    qed
  }
qed

lemma update_mono_Suc:
  shows "patch n vm old new w = Some r \<Longrightarrow> patch (Suc n) vm old new w = Some r"
    and "mount_comps n cs w = Some r' \<Longrightarrow> mount_comps (Suc n) cs w = Some r'"
    and "prototype_update n vm vnode w = Some r' \<Longrightarrow> prototype_update (Suc n) vm vnode w = Some r'"
proof (induction n arbitrary: vm old new cs vnode w r r' and vm old new cs vnode w r r'
         and vm old new cs vnode w r r')
  case 0
  { case 1 then show ?case by simp }
  { case 2 then show ?case by simp }
  { case 3 then show ?case by simp }
next
  case (Suc n)
  {
    case 1
    then show ?case
      apply (subst patch.simps(2))
      apply (subst (asm) patch.simps(2))
      by (auto simp del: patch.simps(2) mount_comps.simps(2) simp: Let_def
               split: option.splits outcome.splits if_splits dest!: Suc.IH(2))
  next
    case 2
    then show ?case
      apply (subst mount_comps.simps(2))
      apply (subst (asm) mount_comps.simps(2))
      by (auto simp del: mount_comps.simps(2) prototype_update.simps(2)
               split: list.splits option.splits outcome.splits dest!: Suc.IH(2,3))
  next
    case 3
    then show ?case
      apply (subst prototype_update.simps(2))
      apply (subst (asm) prototype_update.simps(2))
      by (auto simp del: patch.simps(2) prototype_update.simps(2) simp: Let_def setActiveInstance_def
               split: option.splits outcome.splits if_splits dest!: Suc.IH(1))
  }
qed

lemma update_mono:
  assumes "n \<le> m"
  shows "patch n vm old new w = Some r \<Longrightarrow> patch m vm old new w = Some r"
    and "mount_comps n cs w = Some r' \<Longrightarrow> mount_comps m cs w = Some r'"
    and "prototype_update n vm vnode w = Some r' \<Longrightarrow> prototype_update m vm vnode w = Some r'"
  using assms
  by (induction rule: dec_induct) (blast intro: update_mono_Suc)+

lemma mounts_within_trees:
  "trees w' = trees w \<Longrightarrow> mounts_within h w' t = mounts_within h w t"
  by (induction h arbitrary: t) auto

text \<open>An update ends when the nesting of the trees it mounts is bounded.\<close>

lemma mount_comps_total_aux:
  assumes IH: "\<And>w vnode vm. mounts_within h w vnode \<Longrightarrow> \<exists>n r. prototype_update n vm vnode w = Some r"
  shows "\<forall>ct \<in> set cs. mounts_within h w1 (snd ct) \<Longrightarrow> \<exists>n r. mount_comps n cs w1 = Some r"
proof (induction cs arbitrary: w1)
  case Nil
  have "mount_comps (Suc 0) [] w1 = Some (Done () w1)" by simp
  then show ?case by blast
next
  case (Cons ct rest)
  obtain c t where ct: "ct = (c, t)" by (cases ct)
  with Cons.prems have "mounts_within h w1 t" by simp
  from IH[OF this, of c] obtain n1 r1 where u: "prototype_update n1 c t w1 = Some r1" by blast
  show ?case
  proof (cases r1)
    case (Thrown w2)
    with u ct have "mount_comps (Suc n1) (ct # rest) w1 = Some (Thrown w2)"
      by (simp del: prototype_update.simps(2))
    then show ?thesis by blast
  next
    case (Done x w2)
    from update_trees(3)[OF u] Done have "trees w2 = trees w1" by simp
    from Cons.prems have "\<forall>ct \<in> set rest. mounts_within h w2 (snd ct)"
      unfolding mounts_within_trees[OF \<open>trees w2 = trees w1\<close>] by simp
    from Cons.IH[OF this] obtain n2 r2 where r: "mount_comps n2 rest w2 = Some r2" by blast
    let ?m = "max n1 n2"
    from update_mono(3)[OF _ u, of ?m] Done have a: "prototype_update ?m c t w1 = Some (Done x w2)" by simp
    from update_mono(2)[OF _ r, of ?m] have b: "mount_comps ?m rest w2 = Some r2" by simp
    have "mount_comps (Suc ?m) (ct # rest) w1 = Some r2"
      unfolding mount_comps.simps(2)[of ?m] ct using a b by (simp del: prototype_update.simps(2) mount_comps.simps(2))
    then show ?thesis by blast
  qed
qed

lemma patch_from_mount:
  assumes "mount_comps n (comps (trees w t)) (w\<lparr> patchlog := patchlog w @ [(vm, activeInstance w, old, Some t)] \<rparr>) = Some r"
  shows "\<exists>r2. patch (Suc n) vm old (Some t) w = Some r2"
  using assms by (cases r) (simp_all add: Let_def del: mount_comps.simps(2))

lemma update_from_patch:
  assumes "patch n vm
             (if own_vnode (vms w vm) = None
              then OldEl (el (vms (upd_vm vm (\<lambda>i. i\<lparr> own_vnode := Some vnode \<rparr>) (w\<lparr> activeInstance := Some vm \<rparr>)) vm))
              else OldTree (own_vnode (vms w vm)))
             (Some vnode)
             (upd_vm vm (\<lambda>i. i\<lparr> own_vnode := Some vnode \<rparr>) (w\<lparr> activeInstance := Some vm \<rparr>)) = Some r"
  shows "\<exists>r'. prototype_update (Suc n) vm vnode w = Some r'"
  using assms
  by (cases r; cases "own_vnode (vms w vm) = None")
     (auto simp: Let_def setActiveInstance_def simp del: patch.simps(2))

lemma update_total:
  "mounts_within h w vnode \<Longrightarrow> \<exists>n r. prototype_update n vm vnode w = Some r"
proof (induction h arbitrary: w vnode vm)
  case 0
  then show ?case by simp
next
  case (Suc h)
  have pt: "\<exists>n r. patch n vm old (Some vnode) w2 = Some r" if t: "trees w2 = trees w" for old w2
  proof -
    let ?w1 = "w2\<lparr> patchlog := patchlog w2 @ [(vm, activeInstance w2, old, Some vnode)] \<rparr>"
    have t1: "trees ?w1 = trees w" using t by simp
    from Suc.prems have "\<forall>ct \<in> set (comps (trees w2 vnode)). mounts_within h ?w1 (snd ct)"
      unfolding mounts_within_trees[OF t1] t by simp
    from mount_comps_total_aux[OF Suc.IH this] obtain n r where
      "mount_comps n (comps (trees w2 vnode)) ?w1 = Some r" by blast
    from patch_from_mount[OF this] show ?thesis by blast
  qed
  let ?w2 = "upd_vm vm (\<lambda>i. i\<lparr> own_vnode := Some vnode \<rparr>) (w\<lparr> activeInstance := Some vm \<rparr>)"
  have "trees ?w2 = trees w" by (simp add: upd_vm_def)
  from pt[OF this] obtain n r where
    "patch n vm
             (if own_vnode (vms w vm) = None
              then OldEl (el (vms ?w2 vm))
              else OldTree (own_vnode (vms w vm)))
             (Some vnode) ?w2 = Some r" by blast
  from update_from_patch[OF this] show ?case by blast
qed

lemma update_returns:
  assumes "mounts_within h w vnode"
  shows "\<exists>N r. \<forall>n \<ge> N. prototype_update n vm vnode w = Some r"
proof -
  from update_total[OF assms] obtain N r where "prototype_update N vm vnode w = Some r" by blast
  then have "\<forall>n \<ge> N. prototype_update n vm vnode w = Some r" by (blast intro: update_mono(3))
  then show ?thesis by blast
qed

text \<open>
  C1, as amended. For \<open>_update\<close>:
  \<^item> when it returns, the active-instance slot is as it was before, and every
    patch call made in between, for the instance or for a descendant that
    patching mounts, saw the patched instance itself in the slot;
  \<^item> when it throws, the slot is not put back. The patch calls made start with
    the one for the updating instance and end with one for an instance \<open>v\<close>, the
    updating instance itself or a descendant being mounted, on a tree that
    cannot be patched; every one of them saw its own instance in the slot, and
    the slot still holds \<open>v\<close>;
  \<^item> it ends, in one of these two ways, when the nesting of the trees mounted
    below the new tree is bounded.

  For \<open>callHook\<close>:
  \<^item> when it returns, the tracking slot and its stack are as they were before;
    handlers that throw do not prevent this, since their errors are caught one
    by one;
  \<^item> it returns when no function of the program emits, whatever the handlers
    subscribe, unsubscribe or throw.
\<close>

theorem slots_restored:
  "(prototype_update n vm vnode w = Some (Done u w') \<longrightarrow>
      activeInstance w' = activeInstance w \<and>
      (\<exists>ext. patchlog w' = patchlog w @ ext \<and> (\<forall>e \<in> set ext. fst (snd e) = Some (fst e)))) \<and>
   (prototype_update n vm vnode w = Some (Thrown w') \<longrightarrow>
      (\<exists>ext v od t. patchlog w' = patchlog w @ ext @ [(v, Some v, od, Some t)] \<and>
             (\<forall>e \<in> set ext. fst (snd e) = Some (fst e)) \<and>
             fst (hd (ext @ [(v, Some v, od, Some t)])) = vm \<and>
             faulty (trees w t) \<and> activeInstance w' = Some v)) \<and>
   (mounts_within h w vnode \<longrightarrow> (\<exists>N. \<forall>k \<ge> N. \<exists>r. prototype_update k vm vnode w = Some r)) \<and>
   (callHook m p c hook w = Some w'' \<longrightarrow>
      target w'' = target w \<and> targetStack w'' = targetStack w) \<and>
   ((\<forall>g. quiet p g) \<longrightarrow> (\<exists>N. \<forall>k \<ge> N. \<exists>w''. callHook k p c hook w = Some w''))"
proof -
  have 1: "activeInstance w' = activeInstance w \<and>
      (\<exists>ext. patchlog w' = patchlog w @ ext \<and> (\<forall>e \<in> set ext. fst (snd e) = Some (fst e)))"
    if "prototype_update n vm vnode w = Some (Done u w')"
    using update_restores(3)[OF that] by (auto simp: attributed_def)
  have 2: "\<exists>ext v od t. patchlog w' = patchlog w @ ext @ [(v, Some v, od, Some t)] \<and>
             (\<forall>e \<in> set ext. fst (snd e) = Some (fst e)) \<and>
             fst (hd (ext @ [(v, Some v, od, Some t)])) = vm \<and>
             faulty (trees w t) \<and> activeInstance w' = Some v"
    if "prototype_update n vm vnode w = Some (Thrown w')"
    using update_throws(3)[OF that] unfolding attributed_def by blast
  have 3: "\<exists>N. \<forall>k \<ge> N. \<exists>r. prototype_update k vm vnode w = Some r" if "mounts_within h w vnode"
    using update_returns[OF that, of vm] by blast
  have 4: "target w'' = target w \<and> targetStack w'' = targetStack w"
    if "callHook m p c hook w = Some w''"
    using callHook_restores[OF that] .
  have 5: "\<exists>N. \<forall>k \<ge> N. \<exists>w''. callHook k p c hook w = Some w''" if "\<forall>g. quiet p g"
    using callHook_returns[OF that, of c hook w] by blast
  from 1 2 3 4 5 show ?thesis by blast
qed


text \<open>
  When patch throws, the exception leaves \<open>_update\<close> before the slot is put back:
  the slot was empty and now holds the updating instance 0, or, when the tree of
  the child 1 is the one that cannot be patched, the child.
\<close>

theorem update_patch_throws_counterexample:
  "activeInstance nested_world = None \<and>
   prototype_update 5 0 9 nested_world \<noteq> None \<and>
   threw (the (prototype_update 5 0 9 nested_world)) \<and>
   activeInstance (final (the (prototype_update 5 0 9 nested_world))) = Some 0 \<and>
   prototype_update 5 0 6 nested_world \<noteq> None \<and>
   threw (the (prototype_update 5 0 6 nested_world)) \<and>
   activeInstance (final (the (prototype_update 5 0 6 nested_world))) = Some 1"
  by code_simp


text \<open>An update of instance 0 that mounts instance 1, one in which mounting
  instance 1 throws, and a hook whose handler throws.\<close>

theorem slots_restored_witness:
  "(\<exists>w'. prototype_update 9 0 7 nested_world = Some (Done () w') \<and>
          activeInstance w' = None \<and>
          patchlog w' = [(0, Some 0, OldEl None, Some 7), (1, Some 1, OldEl None, Some 8)]) \<and>
   (\<exists>w'. prototype_update 9 0 6 nested_world = Some (Thrown w') \<and>
          activeInstance w' = Some 1 \<and>
          patchlog w' = [(0, Some 0, OldEl None, Some 6), (1, Some 1, OldEl None, Some 9)]) \<and>
   (\<exists>w'. callHook 9 prog_throw 0 ''mounted'' nested_world = Some w' \<and>
          target w' = Some 4 \<and> targetStack w' = [None] \<and>
          reported (bus (vms w' 0)) = [''mounted hook''])"
proof -
  have "map_option (\<lambda>r. (case r of Done u w' \<Rightarrow> Some (patchlog w') | Thrown w' \<Rightarrow> None))
          (prototype_update 9 0 7 nested_world)
        = Some (Some [(0, Some 0, OldEl None, Some 7), (1, Some 1, OldEl None, Some 8)])"
    by code_simp
  then obtain r1 where r1: "prototype_update 9 0 7 nested_world = Some r1"
    and c1: "(case r1 of Done u w' \<Rightarrow> Some (patchlog w') | Thrown w' \<Rightarrow> None)
               = Some [(0, Some 0, OldEl None, Some 7), (1, Some 1, OldEl None, Some 8)]"
    by auto
  then obtain w1 where u: "prototype_update 9 0 7 nested_world = Some (Done () w1)"
    and pl: "patchlog w1 = [(0, Some 0, OldEl None, Some 7), (1, Some 1, OldEl None, Some 8)]"
    by (cases r1) auto
  have "map_option (\<lambda>r. (case r of Done u w' \<Rightarrow> None | Thrown w' \<Rightarrow> Some (patchlog w')))
          (prototype_update 9 0 6 nested_world)
        = Some (Some [(0, Some 0, OldEl None, Some 6), (1, Some 1, OldEl None, Some 9)])"
    by code_simp
  then obtain r3 where r3: "prototype_update 9 0 6 nested_world = Some r3"
    and c3: "(case r3 of Done u w' \<Rightarrow> None | Thrown w' \<Rightarrow> Some (patchlog w'))
               = Some [(0, Some 0, OldEl None, Some 6), (1, Some 1, OldEl None, Some 9)]"
    by auto
  then obtain w3 where u3: "prototype_update 9 0 6 nested_world = Some (Thrown w3)"
    and pl3: "patchlog w3 = [(0, Some 0, OldEl None, Some 6), (1, Some 1, OldEl None, Some 9)]"
    by (cases r3) auto
  have "map_option (\<lambda>w'. reported (bus (vms w' 0))) (callHook 9 prog_throw 0 ''mounted'' nested_world)
        = Some [''mounted hook'']"
    by code_simp
  then obtain w2 where h: "callHook 9 prog_throw 0 ''mounted'' nested_world = Some w2"
    and rp: "reported (bus (vms w2 0)) = [''mounted hook'']"
    by auto
  have t: "target nested_world = Some 4" "targetStack nested_world = [None]"
    "activeInstance nested_world = None" "patchlog nested_world = []"
    by (simp_all add: nested_world_def blank_world_def)
  have mw: "mounts_within 3 nested_world 7" "mounts_within 3 nested_world 6"
    by (simp_all add: nested_world_def blank_world_def numeral_3_eq_3)
  have q: "\<forall>g. quiet prog_throw g" by (simp add: quiet_def prog_throw_def)
  note a = slots_restored[of 9 0 7 nested_world "()" w1 3 9 prog_throw 0 "''mounted''" w2]
  note b = slots_restored[of 9 0 6 nested_world "()" w3 3 9 prog_throw 0 "''mounted''" w2]
  from a u h t mw q
  have 1: "activeInstance w1 = None" "target w2 = Some 4" "targetStack w2 = [None]"
    "\<exists>k r. prototype_update k 0 7 nested_world = Some r"
    "\<exists>k w''. callHook k prog_throw 0 ''mounted'' nested_world = Some w''"
    by auto
  from b u3 obtain ext v od t' where ext: "patchlog w3 = patchlog nested_world @ ext @ [(v, Some v, od, Some t')]"
    "activeInstance w3 = Some v" by blast
  from ext(1) pl3 t have "last [(0::nat, Some (0::nat), OldEl None, Some (6::nat)), (1, Some 1, OldEl None, Some 9)]
      = (v, Some v, od, Some t')"
    by (metis append_Nil last_appendR last_snoc list.distinct(1))
  then have "v = 1" by simp
  with ext(2) have 2: "activeInstance w3 = Some 1" by simp
  from 1 2 u pl u3 pl3 h rp show ?thesis by blast
qed


end
